theory Spec2Isabelle
  imports Main
begin

section \<open>JavaScript values and arrays\<close>

text \<open>
  The two containers of \<^verbatim>\<open>src/js-maps.ts\<close> keep their entries in two JavaScript
  arrays, \<^verbatim>\<open>keys\<close> and \<^verbatim>\<open>values\<close>. A key or a value is \<^verbatim>\<open>undefined\<close>, the
  number \<^verbatim>\<open>NaN\<close>, or any other value \<open>Val x\<close>. The other values of a
  \<^verbatim>\<open>SortedMap\<close> are numbers, taken from a linear order.
\<close>

datatype 'a js_val = Undefined | NaN | Val 'a

text \<open>
  Strict equality \<^verbatim>\<open>a === b\<close>: \<^verbatim>\<open>NaN\<close> is not equal to anything, itself
  included; every other value is equal to itself and to nothing else. (The two zeros,
  which \<^verbatim>\<open>===\<close> takes for equal, are one value \<open>Val 0\<close> here.)
\<close>

definition strict_eq :: "'a js_val \<Rightarrow> 'a js_val \<Rightarrow> bool" where
  "strict_eq a b = (a = b \<and> a \<noteq> NaN)"

text \<open>
  The comparisons \<^verbatim>\<open>a > b\<close>, \<^verbatim>\<open>a < b\<close> and \<^verbatim>\<open>a >= b\<close>: they hold between
  two numbers as the order has it, and are false as soon as one side is \<^verbatim>\<open>NaN\<close> or
  \<^verbatim>\<open>undefined\<close>.
\<close>

definition js_gt :: "('v::linorder) js_val \<Rightarrow> 'v js_val \<Rightarrow> bool" where
  "js_gt a b = (case (a, b) of (Val x, Val y) \<Rightarrow> x > y | _ \<Rightarrow> False)"

definition js_lt :: "('v::linorder) js_val \<Rightarrow> 'v js_val \<Rightarrow> bool" where
  "js_lt a b = (case (a, b) of (Val x, Val y) \<Rightarrow> x < y | _ \<Rightarrow> False)"

definition js_ge :: "('v::linorder) js_val \<Rightarrow> 'v js_val \<Rightarrow> bool" where
  "js_ge a b = (case (a, b) of (Val x, Val y) \<Rightarrow> x \<ge> y | _ \<Rightarrow> False)"

text \<open>
  An array is the list of its slots: \<open>Some v\<close> is a slot that holds \<open>v\<close>, \<open>None\<close>
  is an empty slot of a sparse array. Indices are integers, since \<^verbatim>\<open>indexOf\<close>
  answers \<open>-1\<close> and the code reads \<^verbatim>\<open>values[-1]\<close>.
\<close>

type_synonym 'a js_array = "'a js_val option list"

text \<open>What reading a slot gives: an empty slot reads as \<^verbatim>\<open>undefined\<close>.\<close>

definition read_slot :: "'a js_val option \<Rightarrow> 'a js_val" where
  "read_slot s = (case s of None \<Rightarrow> Undefined | Some v \<Rightarrow> v)"

text \<open>\<^verbatim>\<open>xs[i]\<close>: reading outside the array gives \<^verbatim>\<open>undefined\<close>.\<close>

definition js_get :: "'a js_array \<Rightarrow> int \<Rightarrow> 'a js_val" where
  "js_get xs i = (if 0 \<le> i \<and> i < int (length xs) then read_slot (xs ! nat i) else Undefined)"

text \<open>
  \<^verbatim>\<open>xs[i] = v\<close>: inside the array the slot is overwritten; at or beyond the
  length the array is extended up to index \<open>i\<close>, the slots in between staying empty.
  No call site writes at a negative index (there JavaScript would set a property and
  leave the elements alone, which is what the last branch says).
\<close>

definition js_put :: "'a js_array \<Rightarrow> int \<Rightarrow> 'a js_val \<Rightarrow> 'a js_array" where
  "js_put xs i v =
     (if 0 \<le> i \<and> i < int (length xs) then xs[nat i := Some v]
      else if int (length xs) \<le> i then xs @ replicate (nat i - length xs) None @ [Some v]
      else xs)"

text \<open>\<^verbatim>\<open>xs.push(x)\<close>.\<close>

definition push :: "'a js_array \<Rightarrow> 'a js_val \<Rightarrow> 'a js_array" where
  "push xs x = xs @ [Some x]"

text \<open>
  \<^verbatim>\<open>xs.indexOf(x)\<close>: the first index whose slot holds a value strictly equal to
  \<open>x\<close>, or \<open>-1\<close>; empty slots are passed over.
\<close>

fun indexOf_from :: "'a js_array \<Rightarrow> 'a js_val \<Rightarrow> int \<Rightarrow> int" where
  "indexOf_from [] x i = - 1"
| "indexOf_from (s # xs) x i =
     (if (case s of None \<Rightarrow> False | Some y \<Rightarrow> strict_eq y x) then i
      else indexOf_from xs x (i + 1))"

definition indexOf :: "'a js_array \<Rightarrow> 'a js_val \<Rightarrow> int" where
  "indexOf xs x = indexOf_from xs x 0"

text \<open>
  \<^verbatim>\<open>xs.splice(start, 1)\<close>: removes the slot at \<open>start\<close> (counted from the end
  when negative, clamped to the array) and closes the gap.
\<close>

definition splice1 :: "'a js_array \<Rightarrow> int \<Rightarrow> 'a js_array" where
  "splice1 xs start =
     (let len = int (length xs);
          s = (if start < 0 then max (len + start) 0 else min start len)
      in take (nat s) xs @ drop (nat s + 1) xs)"

section \<open>The objects\<close>

text \<open>
  An instance of \<^verbatim>\<open>UnsortedMap\<close> or of its subclass \<^verbatim>\<open>SortedMap\<close>: the two
  fields, and the class the object was created with (what \<^verbatim>\<open>this.constructor\<close>
  and the dispatch of \<^verbatim>\<open>this.set\<close> depend on). The methods update the arrays in
  place and return \<^verbatim>\<open>this\<close>; the model returns the object with its new arrays.
  Each object has its two arrays to itself: an object handed one and the same array as
  keys and as values, or arrays that are changed from outside, is not modelled.
\<close>

datatype map_class = UnsortedMap | SortedMap

record ('k, 'v) js_map =
  cls :: map_class
  keys :: "'k js_array"
  "values" :: "'v js_array"

section \<open>UnsortedMap\<close>

text \<open>
  The body of the constructor of \<^verbatim>\<open>UnsortedMap\<close>, run on an object of class
  \<open>c\<close>: it stores the two arrays it is given.
\<close>

definition UnsortedMap_constructor ::
  "map_class \<Rightarrow> 'k js_array \<Rightarrow> 'v js_array \<Rightarrow> ('k, 'v) js_map" where
  "UnsortedMap_constructor c ks vs = \<lparr>cls = c, keys = ks, values = vs\<rparr>"

text \<open>\<^verbatim>\<open>new UnsortedMap(ks, vs)\<close>; both parameters default to \<^verbatim>\<open>[]\<close>.\<close>

definition new_UnsortedMap :: "'k js_array \<Rightarrow> 'v js_array \<Rightarrow> ('k, 'v) js_map" where
  "new_UnsortedMap ks vs = UnsortedMap_constructor UnsortedMap ks vs"

definition UnsortedMap_get :: "('k, 'v) js_map \<Rightarrow> 'k js_val \<Rightarrow> 'v js_val" where
  "UnsortedMap_get m key = (let index = indexOf (keys m) key in js_get (values m) index)"

definition UnsortedMap_set ::
  "('k, 'v) js_map \<Rightarrow> 'k js_val \<Rightarrow> 'v js_val \<Rightarrow> ('k, 'v) js_map" where
  "UnsortedMap_set m setKey setValue =
     (let index = indexOf (keys m) setKey in
      if index = - 1
      then m\<lparr>keys := push (keys m) setKey, values := push (values m) setValue\<rparr>
      else m\<lparr>keys := js_put (keys m) index setKey,
             values := js_put (values m) index setValue\<rparr>)"

definition UnsortedMap_has :: "('k, 'v) js_map \<Rightarrow> 'k js_val \<Rightarrow> bool" where
  "UnsortedMap_has m key = (indexOf (keys m) key > - 1)"

section \<open>SortedMap\<close>

text \<open>
  The two loops of the constructor of \<^verbatim>\<open>SortedMap\<close>. They work on the arrays the
  caller passed, swapping in place; \<open>il\<close> and \<open>jl\<close> are read once, where each loop
  starts.
\<close>

function sort_loop_j ::
  "int \<Rightarrow> int \<Rightarrow> int \<Rightarrow> 'k js_array \<Rightarrow> ('v::linorder) js_array
     \<Rightarrow> 'k js_array \<times> 'v js_array" where
  "sort_loop_j i j jl ks vs =
     (if j < jl then
        (if js_lt (js_get vs i) (js_get vs j) then
           (let tempValue = js_get vs j;
                vs1 = js_put vs j (js_get vs i);
                vs2 = js_put vs1 i tempValue;
                tempKey = js_get ks j;
                ks1 = js_put ks j (js_get ks i);
                ks2 = js_put ks1 i tempKey
            in sort_loop_j i (j + 1) jl ks2 vs2)
         else sort_loop_j i (j + 1) jl ks vs)
      else (ks, vs))"
  by pat_completeness auto
termination
  by (relation "measure (\<lambda>(i, j, jl, ks, vs). nat (jl - j))") auto

function sort_loop_i ::
  "int \<Rightarrow> int \<Rightarrow> 'k js_array \<Rightarrow> ('v::linorder) js_array \<Rightarrow> 'k js_array \<times> 'v js_array" where
  "sort_loop_i i il ks vs =
     (if i < il then
        (case sort_loop_j i (i + 1) (int (length vs)) ks vs of
           (ks', vs') \<Rightarrow> sort_loop_i (i + 1) il ks' vs')
      else (ks, vs))"
  by pat_completeness auto
termination
  by (relation "measure (\<lambda>(i, il, ks, vs). nat (il - i))") auto

text \<open>
  The constructor of \<^verbatim>\<open>SortedMap\<close>. Its arguments are arrays, so the guard
  \<^verbatim>\<open>!!keys && !!values\<close> holds; the loops sort them, and then \<^verbatim>\<open>super()\<close> is
  called with no argument, so the base constructor stores its defaults, two new empty
  arrays. The result is the new object together with the caller's two arrays as the
  loops leave them.
\<close>

definition SortedMap_constructor ::
  "'k js_array \<Rightarrow> ('v::linorder) js_array
     \<Rightarrow> ('k, 'v) js_map \<times> 'k js_array \<times> 'v js_array" where
  "SortedMap_constructor ks vs =
     (case sort_loop_i 0 (int (length vs)) ks vs of
        (ks', vs') \<Rightarrow> (UnsortedMap_constructor SortedMap [] [], ks', vs'))"

text \<open>\<^verbatim>\<open>new SortedMap(ks, vs)\<close>: the object alone.\<close>

definition new_SortedMap :: "'k js_array \<Rightarrow> ('v::linorder) js_array \<Rightarrow> ('k, 'v) js_map" where
  "new_SortedMap ks vs = fst (SortedMap_constructor ks vs)"

text \<open>
  The loop of \<^verbatim>\<open>SortedMap.set\<close>: from the end towards the front, every entry is
  copied one index up until the place of the new entry is found.
\<close>

function set_loop ::
  "int \<Rightarrow> 'k js_val \<Rightarrow> ('v::linorder) js_val \<Rightarrow> 'k js_array \<Rightarrow> 'v js_array
     \<Rightarrow> 'k js_array \<times> 'v js_array" where
  "set_loop i setKey setValue ks vs =
     (if i > - 1 then
        (if i = 0 \<or> js_gt (js_get vs (i - 1)) setValue
         then (js_put ks i setKey, js_put vs i setValue)
         else set_loop (i - 1) setKey setValue
                (js_put ks i (js_get ks (i - 1))) (js_put vs i (js_get vs (i - 1))))
      else (ks, vs))"
  by pat_completeness auto
termination
  by (relation "measure (\<lambda>(i, setKey, setValue, ks, vs). nat (i + 1))") auto

definition SortedMap_set ::
  "('k, 'v::linorder) js_map \<Rightarrow> 'k js_val \<Rightarrow> 'v js_val \<Rightarrow> ('k, 'v) js_map" where
  "SortedMap_set m setKey setValue =
     (let index = indexOf (keys m) setKey;
          ks = (if index > - 1 then splice1 (keys m) index else keys m);
          vs = (if index > - 1 then splice1 (values m) index else values m)
      in case set_loop (int (length vs)) setKey setValue ks vs of
           (ks', vs') \<Rightarrow> m\<lparr>keys := ks', values := vs'\<rparr>)"

section \<open>Inherited methods and dynamic dispatch\<close>

text \<open>\<^verbatim>\<open>m.set(k, v)\<close>: the method of the class of \<open>m\<close>.\<close>

definition call_set ::
  "('k, 'v::linorder) js_map \<Rightarrow> 'k js_val \<Rightarrow> 'v js_val \<Rightarrow> ('k, 'v) js_map" where
  "call_set m setKey setValue =
     (case cls m of
        UnsortedMap \<Rightarrow> UnsortedMap_set m setKey setValue
      | SortedMap \<Rightarrow> SortedMap_set m setKey setValue)"

text \<open>\<^verbatim>\<open>new c(ks, vs)\<close> for a class \<open>c\<close> known at run time.\<close>

definition construct ::
  "map_class \<Rightarrow> 'k js_array \<Rightarrow> ('v::linorder) js_array \<Rightarrow> ('k, 'v) js_map" where
  "construct c ks vs =
     (case c of UnsortedMap \<Rightarrow> new_UnsortedMap ks vs | SortedMap \<Rightarrow> new_SortedMap ks vs)"

text \<open>
  \<^verbatim>\<open>map\<close>: a copy of the keys (\<^verbatim>\<open>concat([])\<close>), the array of the callback's
  results, and a new object of the receiver's class built from the two.
  \<^verbatim>\<open>Array.prototype.map\<close> passes over the empty slots of the keys and leaves them
  empty in its result; on every other slot the callback is handed the key and
  \<^verbatim>\<open>this.values[i]\<close>, which is \<^verbatim>\<open>undefined\<close> where the values are shorter than
  the keys.
\<close>

definition UnsortedMap_map ::
  "('k, 'v::linorder) js_map \<Rightarrow> ('k js_val \<Rightarrow> 'v js_val \<Rightarrow> 'v js_val) \<Rightarrow> ('k, 'v) js_map" where
  "UnsortedMap_map m callback =
     (let ks = keys m @ [];
          vs = map (\<lambda>(slot, i).
                      case slot of
                        None \<Rightarrow> None
                      | Some key \<Rightarrow> Some (callback key (js_get (values m) (int i))))
                 (zip (keys m) [0 ..< length (keys m)])
      in construct (cls m) ks vs)"

text \<open>
  \<^verbatim>\<open>upsert\<close>: the callback is given the current value, \<^verbatim>\<open>undefined\<close> when the
  key is absent, and its result is stored through \<^verbatim>\<open>this.set\<close>.
\<close>

definition UnsortedMap_upsert ::
  "('k, 'v::linorder) js_map \<Rightarrow> 'k js_val \<Rightarrow> ('v js_val \<Rightarrow> 'v js_val) \<Rightarrow> ('k, 'v) js_map" where
  "UnsortedMap_upsert m setKey callback =
     (let v = UnsortedMap_get m setKey in call_set m setKey (callback v))"

section \<open>Sequences of calls\<close>

text \<open>\<^verbatim>\<open>m.set(k1, v1).set(k2, v2)...\<close>, the calls listed in the order they are made.\<close>

definition UnsortedMap_sets ::
  "('k, 'v) js_map \<Rightarrow> ('k js_val \<times> 'v js_val) list \<Rightarrow> ('k, 'v) js_map" where
  "UnsortedMap_sets m calls = foldl (\<lambda>m' (k, v). UnsortedMap_set m' k v) m calls"

definition SortedMap_sets ::
  "('k, 'v::linorder) js_map \<Rightarrow> ('k js_val \<times> 'v js_val) list \<Rightarrow> ('k, 'v) js_map" where
  "SortedMap_sets m calls = foldl (\<lambda>m' (k, v). SortedMap_set m' k v) m calls"

text \<open>A value that is a number other than \<^verbatim>\<open>NaN\<close>.\<close>

fun is_number :: "'a js_val \<Rightarrow> bool" where
  "is_number (Val x) = True"
| "is_number Undefined = False"
| "is_number NaN = False"

section \<open>Notions used in the proofs\<close>

text \<open>A value that \<^verbatim>\<open>indexOf\<close> finds in an array.\<close>

definition found :: "'a js_array \<Rightarrow> 'a js_val \<Rightarrow> bool" where
  "found xs x \<longleftrightarrow> x \<noteq> NaN \<and> Some x \<in> set xs"

text \<open>A slot after it has been read and written back: an empty slot comes back holding
  \<^verbatim>\<open>undefined\<close>.\<close>

definition norm :: "'a js_val option \<Rightarrow> 'a js_val option" where
  "norm s = Some (read_slot s)"

text \<open>
  Where the loop of \<^verbatim>\<open>SortedMap.set\<close> stops on the values \<open>vs\<close>: behind the
  last value that is greater than the new one, or at the front.
\<close>

definition ins_pos :: "('v::linorder) js_val \<Rightarrow> 'v js_array \<Rightarrow> nat" where
  "ins_pos v vs = length (dropWhile (\<lambda>s. \<not> js_gt (read_slot s) v) (rev vs))"

text \<open>The array \<open>xs\<close> with the value \<open>x\<close> put in at that index, the slots behind it
  copied one index up.\<close>

definition ins_at ::
  "('v::linorder) js_val \<Rightarrow> 'v js_array \<Rightarrow> 'a js_val \<Rightarrow> 'a js_array \<Rightarrow> 'a js_array" where
  "ins_at v vs x xs = take (ins_pos v vs) xs @ Some x # map norm (drop (ins_pos v vs) xs)"

text \<open>
  The keys and the values of \<open>m\<close> once the entry of the key \<open>k\<close>, if
  \<^verbatim>\<open>indexOf\<close> finds one, has been spliced out.
\<close>

definition removed_keys :: "('k, 'v) js_map \<Rightarrow> 'k js_val \<Rightarrow> 'k js_array" where
  "removed_keys m k = (if found (keys m) k then remove1 (Some k) (keys m) else keys m)"

definition removed_values :: "('k, 'v) js_map \<Rightarrow> 'k js_val \<Rightarrow> 'v js_array" where
  "removed_values m k =
     (if found (keys m) k
      then take (nat (indexOf (keys m) k)) (values m) @ drop (Suc (nat (indexOf (keys m) k))) (values m)
      else values m)"

text \<open>
  The order kept by \<^verbatim>\<open>SortedMap.set\<close>: a later value is never greater than an
  earlier one. The invariant of the objects \<^verbatim>\<open>SortedMap\<close> builds adds that the two
  arrays have one length and no empty slot, and that no key other than \<^verbatim>\<open>NaN\<close> is
  stored twice.
\<close>

definition no_rise :: "('v::linorder) js_val option \<Rightarrow> 'v js_val option \<Rightarrow> bool" where
  "no_rise a b = (\<not> js_gt (read_slot b) (read_slot a))"

definition sorted_inv :: "('k, 'v::linorder) js_map \<Rightarrow> bool" where
  "sorted_inv m \<longleftrightarrow>
     length (keys m) = length (values m) \<and> None \<notin> set (keys m) \<and> None \<notin> set (values m) \<and>
     distinct (filter (\<lambda>s. s \<noteq> Some NaN) (keys m)) \<and> sorted_wrt no_rise (values m)"

declare set_loop.simps [simp del] sort_loop_j.simps [simp del] sort_loop_i.simps [simp del]

section \<open>Facts about the array operations\<close>

lemma strict_eq_iff: "strict_eq y x \<longleftrightarrow> y = x \<and> x \<noteq> NaN"
  by (auto simp: strict_eq_def)

lemma slot_test: "(case s of None \<Rightarrow> False | Some y \<Rightarrow> strict_eq y x) \<longleftrightarrow> s = Some x \<and> x \<noteq> NaN"
  by (cases s) (auto simp: strict_eq_iff)

lemma not_found_NaN: "\<not> found xs NaN"
  by (simp add: found_def)

lemma indexOf_from_absent: "\<not> found xs x \<Longrightarrow> indexOf_from xs x i = - 1"
  by (induction xs arbitrary: i) (auto simp: slot_test found_def)

lemma indexOf_from_present:
  "found xs x \<Longrightarrow>
     i \<le> indexOf_from xs x i \<and> indexOf_from xs x i < i + int (length xs) \<and>
     xs ! nat (indexOf_from xs x i - i) = Some x \<and>
     Some x \<notin> set (take (nat (indexOf_from xs x i - i)) xs)"
proof (induction xs arbitrary: i)
  case Nil
  then show ?case by (simp add: found_def)
next
  case (Cons s xs)
  from Cons.prems have nn: "x \<noteq> NaN" by (simp add: found_def)
  show ?case
  proof (cases "s = Some x")
    case True
    with nn show ?thesis by (simp add: strict_eq_iff)
  next
    case False
    with Cons.prems have mem: "found xs x" by (simp add: found_def)
    define j where "j = indexOf_from xs x (i + 1)"
    from Cons.IH [OF mem, of "i + 1"]
    have ih: "i + 1 \<le> j" "j < i + 1 + int (length xs)" "xs ! nat (j - (i + 1)) = Some x"
      "Some x \<notin> set (take (nat (j - (i + 1))) xs)"
      by (simp_all add: j_def)
    from ih(1) have n: "nat (j - i) = Suc (nat (j - (i + 1)))" by simp
    from False have e: "indexOf_from (s # xs) x i = j" by (simp add: j_def slot_test)
    from ih False show ?thesis unfolding e n by simp
  qed
qed

lemma indexOf_absent: "\<not> found xs x \<Longrightarrow> indexOf xs x = - 1"
  by (simp add: indexOf_def indexOf_from_absent)

lemma indexOf_present:
  assumes "found xs x"
  shows "0 \<le> indexOf xs x" and "indexOf xs x < int (length xs)"
    and "xs ! nat (indexOf xs x) = Some x"
    and "Some x \<notin> set (take (nat (indexOf xs x)) xs)"
  using indexOf_from_present [OF assms, of 0] by (simp_all add: indexOf_def)

lemma indexOf_eq_minus1_iff: "indexOf xs x = - 1 \<longleftrightarrow> \<not> found xs x"
proof (cases "found xs x")
  case True
  with indexOf_present(1) [OF True] show ?thesis by simp
next
  case False
  then show ?thesis by (simp add: indexOf_absent)
qed

lemma indexOf_gt_minus1_iff: "indexOf xs x > - 1 \<longleftrightarrow> found xs x"
proof (cases "found xs x")
  case True
  with indexOf_present(1) [OF True] show ?thesis by simp
next
  case False
  then show ?thesis by (simp add: indexOf_absent)
qed

lemma indexOf_from_append:
  "indexOf_from (xs @ ys) x i =
     (if found xs x then indexOf_from xs x i else indexOf_from ys x (i + int (length xs)))"
  by (induction xs arbitrary: i) (auto simp: algebra_simps slot_test found_def)

lemma indexOf_append:
  "indexOf (xs @ ys) x =
     (if found xs x then indexOf xs x else indexOf_from ys x (int (length xs)))"
  by (simp add: indexOf_def indexOf_from_append)

lemma indexOf_snoc_new:
  "\<not> found xs x \<Longrightarrow> x \<noteq> NaN \<Longrightarrow> indexOf (xs @ [Some x]) x = int (length xs)"
  by (simp add: indexOf_append strict_eq_iff)

lemma found_append: "found (xs @ ys) x \<longleftrightarrow> found xs x \<or> found ys x"
  by (auto simp: found_def)

lemma found_single: "found [Some y] x \<longleftrightarrow> x = y \<and> x \<noteq> NaN"
  by (auto simp: found_def)

lemma js_get_minus1: "js_get xs (- 1) = Undefined"
  by (simp add: js_get_def)

lemma js_get_append1: "i < int (length xs) \<Longrightarrow> js_get (xs @ ys) i = js_get xs i"
  by (auto simp: js_get_def nth_append)

lemma js_get_append_at: "js_get (xs @ y # ys) (int (length xs)) = read_slot y"
  by (simp add: js_get_def)

lemma js_put_append_at: "js_put (xs @ ys) (int (length xs)) v = xs @ Some v # tl ys"
  by (cases ys) (auto simp: js_put_def list_update_append)

lemma js_put_same:
  "0 \<le> i \<Longrightarrow> i < int (length xs) \<Longrightarrow> xs ! nat i = Some v \<Longrightarrow> js_put xs i v = xs"
  using list_update_id [of xs "nat i"] by (simp add: js_put_def)

lemma js_put_in: "0 \<le> i \<Longrightarrow> i < int (length xs) \<Longrightarrow> js_put xs i v = xs[nat i := Some v]"
  by (simp add: js_put_def)

section \<open>Facts about UnsortedMap.set\<close>

lemma UnsortedMap_set_keys:
  "keys (UnsortedMap_set m k v) =
     (if found (keys m) k then keys m else keys m @ [Some k])"
  using indexOf_present [of "keys m" k]
  by (auto simp: UnsortedMap_set_def Let_def push_def indexOf_eq_minus1_iff js_put_same)

lemma UnsortedMap_set_values:
  "values (UnsortedMap_set m k v) =
     (if found (keys m) k then js_put (values m) (indexOf (keys m) k) v
      else values m @ [Some v])"
  by (auto simp: UnsortedMap_set_def Let_def push_def indexOf_eq_minus1_iff)

lemma UnsortedMap_set_length:
  assumes "length (keys m) = length (values m)"
  shows "length (keys (UnsortedMap_set m k v)) = length (values (UnsortedMap_set m k v))"
  using assms indexOf_present(1,2) [of "keys m" k]
  by (auto simp: UnsortedMap_set_keys UnsortedMap_set_values js_put_in)

lemma UnsortedMap_get_NaN: "UnsortedMap_get m NaN = Undefined"
  by (simp add: UnsortedMap_get_def indexOf_absent not_found_NaN js_get_minus1)

lemma UnsortedMap_get_set:
  assumes "length (keys m) = length (values m)"
  shows "UnsortedMap_get (UnsortedMap_set m k v) k' =
           (if k' = k \<and> k \<noteq> NaN then v else UnsortedMap_get m k')"
proof (cases "found (keys m) k")
  case True
  note ix = indexOf_present [OF True]
  from True have nn: "k \<noteq> NaN" by (simp add: found_def)
  show ?thesis
  proof (cases "k' = k")
    case True
    with ix assms nn \<open>found (keys m) k\<close> show ?thesis
      by (simp add: UnsortedMap_get_def UnsortedMap_set_keys UnsortedMap_set_values js_put_in
          js_get_def read_slot_def)
  next
    case False
    show ?thesis
    proof (cases "found (keys m) k'")
      case True
      note ix' = indexOf_present [OF True]
      from ix(3) ix'(3) False have "indexOf (keys m) k' \<noteq> indexOf (keys m) k" by auto
      with ix ix' assms \<open>found (keys m) k\<close> False show ?thesis
        by (auto simp: UnsortedMap_get_def UnsortedMap_set_keys UnsortedMap_set_values js_put_in js_get_def)
    next
      case False
      with \<open>k' \<noteq> k\<close> \<open>found (keys m) k\<close> show ?thesis
        by (simp add: UnsortedMap_get_def UnsortedMap_set_keys indexOf_absent js_get_minus1)
    qed
  qed
next
  case False
  show ?thesis
  proof (cases "k' = k")
    case True
    show ?thesis
    proof (cases "k = NaN")
      case True
      with \<open>k' = k\<close> show ?thesis by (simp add: UnsortedMap_get_NaN)
    next
      case nn: False
      with False assms \<open>k' = k\<close> show ?thesis
        by (simp add: UnsortedMap_get_def UnsortedMap_set_keys UnsortedMap_set_values
            indexOf_snoc_new js_get_append_at [of _ _ "[]"] read_slot_def)
    qed
  next
    case ne: False
    show ?thesis
    proof (cases "found (keys m) k'")
      case True
      note ix' = indexOf_present [OF True]
      with False assms True ne show ?thesis
        by (simp add: UnsortedMap_get_def UnsortedMap_set_keys UnsortedMap_set_values
            indexOf_append js_get_append1)
    next
      case nk: False
      with False ne have "\<not> found (keys m @ [Some k]) k'"
        by (simp add: found_append found_single)
      with False nk ne show ?thesis
        by (simp add: UnsortedMap_get_def UnsortedMap_set_keys UnsortedMap_set_values
            indexOf_absent js_get_minus1)
    qed
  qed
qed

lemma UnsortedMap_has_iff: "UnsortedMap_has m k \<longleftrightarrow> found (keys m) k"
  by (simp add: UnsortedMap_has_def indexOf_gt_minus1_iff)

lemma UnsortedMap_has_set:
  "UnsortedMap_has (UnsortedMap_set m k v) k' \<longleftrightarrow> (k' = k \<and> k \<noteq> NaN) \<or> UnsortedMap_has m k'"
  by (auto simp: UnsortedMap_has_iff UnsortedMap_set_keys found_append found_single)

lemma UnsortedMap_get_absent: "\<not> UnsortedMap_has m k \<Longrightarrow> UnsortedMap_get m k = Undefined"
  by (simp add: UnsortedMap_has_iff UnsortedMap_get_def indexOf_absent js_get_minus1)

lemma UnsortedMap_sets_snoc:
  "UnsortedMap_sets m (calls @ [(k, v)]) = UnsortedMap_set (UnsortedMap_sets m calls) k v"
  by (simp add: UnsortedMap_sets_def)

lemma UnsortedMap_sets_Nil: "UnsortedMap_sets m [] = m"
  by (simp add: UnsortedMap_sets_def)

lemma UnsortedMap_sets_length:
  "length (keys m) = length (values m) \<Longrightarrow>
   length (keys (UnsortedMap_sets m calls)) = length (values (UnsortedMap_sets m calls))"
  by (induction calls rule: rev_induct)
     (auto simp: UnsortedMap_sets_Nil UnsortedMap_sets_snoc UnsortedMap_set_length)

lemma UnsortedMap_sets_get:
  assumes "length (keys m) = length (values m)" and "k \<noteq> NaN"
  shows "UnsortedMap_get (UnsortedMap_sets m calls) k =
           (case map_of (rev calls) k of Some v \<Rightarrow> v | None \<Rightarrow> UnsortedMap_get m k)"
proof (induction calls rule: rev_induct)
  case Nil
  show ?case by (simp add: UnsortedMap_sets_Nil)
next
  case (snoc c calls)
  obtain k' v' where c: "c = (k', v')" by (cases c)
  show ?case
    using snoc.IH UnsortedMap_sets_length [OF assms(1), of calls] assms(2)
    by (auto simp: c UnsortedMap_sets_snoc UnsortedMap_get_set)
qed

lemma UnsortedMap_sets_has:
  "k \<noteq> NaN \<Longrightarrow>
   UnsortedMap_has (UnsortedMap_sets m calls) k \<longleftrightarrow> k \<in> fst ` set calls \<or> UnsortedMap_has m k"
  by (induction calls rule: rev_induct)
     (auto simp: UnsortedMap_sets_Nil UnsortedMap_sets_snoc UnsortedMap_has_set)

lemma UnsortedMap_set_twice:
  assumes len: "length (keys m) = length (values m)" and nn: "k \<noteq> NaN"
  shows "UnsortedMap_set (UnsortedMap_set m k v) k v = UnsortedMap_set m k v"
proof -
  define m1 where "m1 = UnsortedMap_set m k v"
  have mem: "found (keys m1) k"
    using nn by (simp add: m1_def UnsortedMap_set_keys found_append found_single)
  note ix = indexOf_present [OF mem]
  have len1: "length (keys m1) = length (values m1)"
    unfolding m1_def by (rule UnsortedMap_set_length [OF len])
  have vk: "values m1 ! nat (indexOf (keys m1) k) = Some v"
  proof (cases "found (keys m) k")
    case True
    note i0 = indexOf_present [OF True]
    from True have "keys m1 = keys m" by (simp add: m1_def UnsortedMap_set_keys)
    moreover from True i0 len have "values m1 = (values m)[nat (indexOf (keys m) k) := Some v]"
      by (simp add: m1_def UnsortedMap_set_values js_put_in)
    ultimately show ?thesis using i0 len by simp
  next
    case False
    then have "keys m1 = keys m @ [Some k]" "values m1 = values m @ [Some v]"
      by (simp_all add: m1_def UnsortedMap_set_keys UnsortedMap_set_values)
    with False nn len show ?thesis by (simp add: indexOf_snoc_new)
  qed
  have pk: "js_put (keys m1) (indexOf (keys m1) k) k = keys m1"
    using ix by (simp add: js_put_same)
  have pv: "js_put (values m1) (indexOf (keys m1) k) v = values m1"
    using ix len1 vk by (simp add: js_put_same)
  have ne: "indexOf (keys m1) k \<noteq> - 1" using ix(1) by simp
  have "UnsortedMap_set m1 k v = m1"
    by (subst UnsortedMap_set_def) (simp add: Let_def ne pk pv)
  then show ?thesis by (simp only: m1_def)
qed

lemma UnsortedMap_set_in_place:
  assumes "length (keys m) = length (values m)" and "UnsortedMap_has m k"
  shows "keys (UnsortedMap_set m k v) = keys m \<and>
         values (UnsortedMap_set m k v) = (values m)[nat (indexOf (keys m) k) := Some v]"
proof -
  from assms(2) have mem: "found (keys m) k" by (simp add: UnsortedMap_has_iff)
  from indexOf_present(1,2) [OF mem] assms(1) mem show ?thesis
    by (simp add: UnsortedMap_set_keys UnsortedMap_set_values js_put_in)
qed

lemma UnsortedMap_sets_keys_found:
  "k \<noteq> NaN \<Longrightarrow> found (keys (UnsortedMap_sets m calls)) k \<longleftrightarrow> found (keys m) k \<or> k \<in> fst ` set calls"
  using UnsortedMap_sets_has [of k m calls] by (auto simp: UnsortedMap_has_iff)

lemma UnsortedMap_sets_keys_prefix: "\<exists>xs. keys (UnsortedMap_sets m calls) = keys m @ xs"
proof (induction calls rule: rev_induct)
  case Nil
  show ?case by (simp add: UnsortedMap_sets_Nil)
next
  case (snoc c calls)
  then show ?case
    by (cases c) (auto simp: UnsortedMap_sets_snoc UnsortedMap_set_keys)
qed

lemma first_set_order:
  assumes ne: "A \<noteq> B" and nA: "A \<noteq> NaN" and nB: "B \<noteq> NaN"
    and pre: "B \<notin> fst ` set pre" and mid: "B \<notin> fst ` set mid"
  shows "0 \<le> indexOf (keys (UnsortedMap_sets (new_UnsortedMap [] [])
                 (pre @ (A, a) # mid @ (B, b) # post))) A \<and>
         indexOf (keys (UnsortedMap_sets (new_UnsortedMap [] [])
                 (pre @ (A, a) # mid @ (B, b) # post))) A
         < indexOf (keys (UnsortedMap_sets (new_UnsortedMap [] [])
                 (pre @ (A, a) # mid @ (B, b) # post))) B"
proof -
  define m1 where "m1 = UnsortedMap_sets (new_UnsortedMap [] []) (pre @ (A, a) # mid)"
  define m where "m = UnsortedMap_sets (new_UnsortedMap [] []) (pre @ (A, a) # mid @ (B, b) # post)"
  have inA: "found (keys m1) A"
    unfolding m1_def using nA by (simp add: UnsortedMap_sets_keys_found)
  have "\<not> found (keys (new_UnsortedMap [] [])) B"
    by (simp add: new_UnsortedMap_def UnsortedMap_constructor_def found_def)
  moreover have "B \<notin> fst ` set (pre @ (A, a) # mid)"
    using ne pre mid by auto
  ultimately have ninB: "\<not> found (keys m1) B"
    unfolding m1_def using nB by (simp only: UnsortedMap_sets_keys_found simp_thms)
  have "m = UnsortedMap_sets (UnsortedMap_set m1 B b) post"
    by (simp add: m_def m1_def UnsortedMap_sets_def)
  with UnsortedMap_sets_keys_prefix [of "UnsortedMap_set m1 B b" post]
  obtain xs where km: "keys m = (keys m1 @ [Some B]) @ xs"
    using ninB by (auto simp: UnsortedMap_set_keys)
  have iA: "indexOf (keys m) A = indexOf (keys m1) A"
    using inA by (simp add: km indexOf_append found_append)
  have iB: "indexOf (keys m) B = int (length (keys m1))"
    using ninB nB by (simp add: km indexOf_append found_append found_single strict_eq_iff)
  from indexOf_present(1,2) [OF inA] iA iB show ?thesis
    unfolding m_def [symmetric] by simp
qed

section \<open>The loop of SortedMap.set\<close>

lemma read_slot_norm: "read_slot (norm s) = read_slot s"
  by (simp add: norm_def read_slot_def)

lemma norm_norm: "norm (norm s) = norm s"
  by (simp add: norm_def read_slot_def)

lemma norm_Some: "norm (Some v) = Some v"
  by (simp add: norm_def read_slot_def)

lemma map_norm_dense: "None \<notin> set xs \<Longrightarrow> map norm xs = xs"
proof (induction xs)
  case Nil
  show ?case by simp
next
  case (Cons s xs)
  then show ?case by (cases s) (simp_all add: norm_Some)
qed

lemma ins_pos_Nil: "ins_pos v [] = 0"
  by (simp add: ins_pos_def)

lemma ins_pos_snoc:
  "ins_pos v (vs @ [a]) = (if js_gt (read_slot a) v then Suc (length vs) else ins_pos v vs)"
  by (simp add: ins_pos_def)

lemma ins_pos_le: "ins_pos v vs \<le> length vs"
  using length_dropWhile_le [of _ "rev vs"] by (simp add: ins_pos_def)

lemma set_loop_closed:
  "length ka = length va \<Longrightarrow>
   set_loop (int (length va)) k v (ka @ kr) (va @ vr) =
     (take (ins_pos v va) ka @ Some k # map norm (drop (ins_pos v va) ka) @ tl kr,
      take (ins_pos v va) va @ Some v # map norm (drop (ins_pos v va) va) @ tl vr)"
proof (induction va arbitrary: ka kr vr rule: rev_induct)
  case Nil
  then show ?case
    using js_put_append_at [of "[]" kr k] js_put_append_at [of "[]" vr v]
    by (simp add: set_loop.simps [of 0] ins_pos_Nil)
next
  case (snoc a va)
  from snoc.prems obtain b ka' where ka: "ka = ka' @ [b]" and len: "length ka' = length va"
    by (cases ka rule: rev_cases) auto
  have rd: "js_get ((va @ [a]) @ vr) (int (length va)) = read_slot a"
    using js_get_append_at [of va a vr] by simp
  have rdk: "js_get ((ka' @ [b]) @ kr) (int (length va)) = read_slot b"
    using js_get_append_at [of ka' b kr] len by simp
  have wv: "js_put ((va @ [a]) @ vr) (1 + int (length va)) x = (va @ [a]) @ Some x # tl vr" for x
    using js_put_append_at [of "va @ [a]" vr x] by simp
  have wk: "js_put ((ka' @ [b]) @ kr) (1 + int (length va)) x = (ka' @ [b]) @ Some x # tl kr" for x
    using js_put_append_at [of "ka' @ [b]" kr x] len by simp
  show ?case
  proof (cases "js_gt (read_slot a) v")
    case True
    then show ?thesis
      unfolding ka
      by (subst set_loop.simps) (simp add: rd wv wk ins_pos_snoc len del: append_assoc)
  next
    case False
    have "set_loop (int (length (va @ [a]))) k v ((ka' @ [b]) @ kr) ((va @ [a]) @ vr) =
      set_loop (int (length va)) k v ((ka' @ [b]) @ norm b # tl kr) ((va @ [a]) @ norm a # tl vr)"
      by (subst set_loop.simps) (simp add: False rd rdk wv wk norm_def del: append_assoc)
    then have step: "set_loop (int (length (va @ [a]))) k v ((ka' @ [b]) @ kr) ((va @ [a]) @ vr) =
      set_loop (int (length va)) k v (ka' @ (b # norm b # tl kr)) (va @ (a # norm a # tl vr))"
      by simp
    from ins_pos_le [of v va] len have le: "ins_pos v va \<le> length va" "ins_pos v va \<le> length ka'"
      by simp_all
    show ?thesis
      unfolding ka step snoc.IH [OF len]
      using False le by (simp add: ins_pos_snoc)
  qed
qed

lemma set_loop_eq:
  assumes "length ks = length vs"
  shows "set_loop (int (length vs)) k v ks vs = (ins_at v vs k ks, ins_at v vs v vs)"
  using set_loop_closed [OF assms, of k v "[]" "[]"] by (simp add: ins_at_def)

lemma splice1_in:
  "0 \<le> i \<Longrightarrow> i < int (length xs) \<Longrightarrow> splice1 xs i = take (nat i) xs @ drop (Suc (nat i)) xs"
  by (simp add: splice1_def Let_def min_def)

lemma splice1_indexOf:
  assumes "found xs x"
  shows "splice1 xs (indexOf xs x) = remove1 (Some x) xs"
proof -
  note ix = indexOf_present [OF assms]
  define i where "i = nat (indexOf xs x)"
  from ix have i: "i < length xs" "xs ! i = Some x" "Some x \<notin> set (take i xs)"
    by (simp_all add: i_def)
  have "xs = take i xs @ Some x # drop (Suc i) xs"
    using id_take_nth_drop [OF i(1)] i(2) by simp
  then have "remove1 (Some x) xs = remove1 (Some x) (take i xs @ Some x # drop (Suc i) xs)"
    by simp
  also have "\<dots> = take i xs @ drop (Suc i) xs"
    using i(3) by (simp add: remove1_append)
  finally show ?thesis using ix by (simp add: splice1_in i_def)
qed

lemma removed_length:
  assumes "length (keys m) = length (values m)"
  shows "length (removed_keys m k) = length (removed_values m k)"
proof (cases "found (keys m) k")
  case True
  then have "Some k \<in> set (keys m)" by (simp add: found_def)
  with indexOf_present(1,2) [OF True] assms True show ?thesis
    by (simp add: removed_keys_def removed_values_def length_remove1)
next
  case False
  with assms show ?thesis by (simp add: removed_keys_def removed_values_def)
qed

lemma SortedMap_set_eq:
  assumes "length (keys m) = length (values m)"
  shows "SortedMap_set m k v =
     m\<lparr>keys := ins_at v (removed_values m k) k (removed_keys m k),
       values := ins_at v (removed_values m k) v (removed_values m k)\<rparr>"
proof -
  have ks: "(if indexOf (keys m) k > - 1 then splice1 (keys m) (indexOf (keys m) k) else keys m)
      = removed_keys m k"
    by (simp add: indexOf_gt_minus1_iff splice1_indexOf removed_keys_def)
  have vs: "(if indexOf (keys m) k > - 1 then splice1 (values m) (indexOf (keys m) k) else values m)
      = removed_values m k"
    using indexOf_present(1,2) [of "keys m" k] assms
    by (simp add: indexOf_gt_minus1_iff splice1_in removed_values_def)
  show ?thesis
    unfolding SortedMap_set_def Let_def ks vs
    by (simp add: set_loop_eq [OF removed_length [OF assms]])
qed

lemma length_ins_at: "length (ins_at v vs x xs) = Suc (length xs)"
  by (simp add: ins_at_def)

lemma SortedMap_set_length:
  assumes "length (keys m) = length (values m)"
  shows "length (keys (SortedMap_set m k v)) = length (values (SortedMap_set m k v))"
  using removed_length [OF assms, of k] by (simp add: SortedMap_set_eq [OF assms] length_ins_at)

lemma call_set_length:
  assumes "length (keys m) = length (values m)"
  shows "length (keys (call_set m k v)) = length (values (call_set m k v))"
  using assms by (cases "cls m") (simp_all add: call_set_def UnsortedMap_set_length SortedMap_set_length)

lemma new_SortedMap_eq: "new_SortedMap ks vs = \<lparr>cls = SortedMap, keys = [], values = []\<rparr>"
  by (simp add: new_SortedMap_def SortedMap_constructor_def UnsortedMap_constructor_def
      split: prod.splits)

lemma UnsortedMap_map_length:
  "length (keys (UnsortedMap_map m g)) = length (values (UnsortedMap_map m g))"
  by (cases "cls m")
     (simp_all add: UnsortedMap_map_def construct_def new_UnsortedMap_def
        UnsortedMap_constructor_def new_SortedMap_eq)

lemma UnsortedMap_map_plain:
  assumes "cls m = UnsortedMap"
  shows "cls (UnsortedMap_map m f) = UnsortedMap \<and> keys (UnsortedMap_map m f) = keys m \<and>
         length (values (UnsortedMap_map m f)) = length (keys m) \<and>
         (\<forall>i < length (keys m).
            values (UnsortedMap_map m f) ! i =
              (case keys m ! i of None \<Rightarrow> None
               | Some key \<Rightarrow> Some (f key (js_get (values m) (int i)))))"
  using assms
  by (simp add: UnsortedMap_map_def construct_def new_UnsortedMap_def UnsortedMap_constructor_def)

section \<open>Calling SortedMap.set twice\<close>

lemma ins_pos_tail_norm: "ins_pos v (take n xs @ map norm (drop n xs)) = ins_pos v xs"
proof (induction xs rule: rev_induct)
  case Nil
  show ?case by simp
next
  case (snoc a xs)
  show ?case
  proof (cases "n \<le> length xs")
    case True
    then have e: "take n (xs @ [a]) @ map norm (drop n (xs @ [a])) =
        (take n xs @ map norm (drop n xs)) @ [norm a]" by simp
    have l: "length (take n xs @ map norm (drop n xs)) = length xs" by simp
    show ?thesis
      unfolding e ins_pos_snoc read_slot_norm l snoc.IH ..
  next
    case False
    then show ?thesis by simp
  qed
qed

lemma indexOf_ins_at:
  assumes "Some k \<notin> set ks" and "k \<noteq> NaN" and "ins_pos v vs \<le> length ks"
  shows "indexOf (ins_at v vs k ks) k = int (ins_pos v vs)"
proof -
  have "Some k \<notin> set (take (ins_pos v vs) ks)" using assms(1) by (auto dest: in_set_takeD)
  then have "\<not> found (take (ins_pos v vs) ks) k" by (simp add: found_def)
  with assms(2,3) show ?thesis by (simp add: ins_at_def indexOf_append min_def strict_eq_iff)
qed

lemma remove1_ins_at:
  assumes "Some k \<notin> set ks"
  shows "remove1 (Some k) (ins_at v vs k ks) =
           take (ins_pos v vs) ks @ map norm (drop (ins_pos v vs) ks)"
proof -
  have "Some k \<notin> set (take (ins_pos v vs) ks)" using assms by (auto dest: in_set_takeD)
  then show ?thesis by (simp add: ins_at_def remove1_append)
qed

lemma take_drop_ins:
  "p \<le> length xs \<Longrightarrow>
   take p (take p xs @ s # ys) @ drop (Suc p) (take p xs @ s # ys) = take p xs @ ys"
  by (simp add: min_def)

lemma ins_at_again:
  assumes "p = ins_pos v vs" and "p \<le> length xs" and "ins_pos v vs' = p"
  shows "ins_at v vs' x (take p xs @ map norm (drop p xs)) = ins_at v vs x xs"
  using assms by (simp add: ins_at_def min_def norm_norm)

lemma SortedMap_set_twice:
  assumes len: "length (keys m) = length (values m)" and nn: "k \<noteq> NaN"
    and fresh: "Some k \<notin> set (removed_keys m k)"
  shows "SortedMap_set (SortedMap_set m k v) k v = SortedMap_set m k v"
proof -
  define rk where "rk = removed_keys m k"
  define rv where "rv = removed_values m k"
  define p where "p = ins_pos v rv"
  define m1 where "m1 = SortedMap_set m k v"
  have rl: "length rk = length rv" unfolding rk_def rv_def by (rule removed_length [OF len])
  have fr: "Some k \<notin> set rk" unfolding rk_def by (rule fresh)
  have m1: "m1 = m\<lparr>keys := ins_at v rv k rk, values := ins_at v rv v rv\<rparr>"
    unfolding m1_def rk_def rv_def by (rule SortedMap_set_eq [OF len])
  have k1: "keys m1 = ins_at v rv k rk" and v1: "values m1 = ins_at v rv v rv"
    by (simp_all add: m1)
  have len1: "length (keys m1) = length (values m1)"
    by (simp add: k1 v1 length_ins_at rl)
  have p: "p \<le> length rv" "p \<le> length rk"
    using ins_pos_le [of v rv] rl by (simp_all add: p_def)
  have ix: "indexOf (keys m1) k = int p"
    unfolding k1 p_def by (rule indexOf_ins_at [OF fr nn p(2) [unfolded p_def]])
  have mem: "found (keys m1) k" using nn by (simp add: k1 ins_at_def found_def)
  have rk1: "removed_keys m1 k = take p rk @ map norm (drop p rk)"
    using mem unfolding removed_keys_def k1 p_def by (simp add: remove1_ins_at [OF fr])
  have "removed_values m1 k = take p (values m1) @ drop (Suc p) (values m1)"
    using mem by (simp add: removed_values_def ix)
  also have "\<dots> = take p rv @ map norm (drop p rv)"
    unfolding v1 ins_at_def p_def [symmetric] by (rule take_drop_ins [OF p(1)])
  finally have rv1: "removed_values m1 k = take p rv @ map norm (drop p rv)" .
  have pp: "ins_pos v (take p rv @ map norm (drop p rv)) = p"
    by (simp add: ins_pos_tail_norm p_def)
  have "SortedMap_set m1 k v =
      m1\<lparr>keys := ins_at v (take p rv @ map norm (drop p rv)) k (take p rk @ map norm (drop p rk)),
         values := ins_at v (take p rv @ map norm (drop p rv)) v (take p rv @ map norm (drop p rv))\<rparr>"
    using SortedMap_set_eq [OF len1, of k v] by (simp only: rk1 rv1)
  also have "\<dots> = m1\<lparr>keys := ins_at v rv k rk, values := ins_at v rv v rv\<rparr>"
    by (simp only: ins_at_again [OF p_def p(2) pp] ins_at_again [OF p_def p(1) pp])
  also have "\<dots> = m1" by (simp add: m1)
  finally show ?thesis by (simp only: m1_def)
qed

section \<open>The invariant of SortedMap\<close>

lemma ins_at_dense:
  "None \<notin> set xs \<Longrightarrow> ins_at v vs x xs = take (ins_pos v vs) xs @ Some x # drop (ins_pos v vs) xs"
proof -
  assume "None \<notin> set xs"
  then have "None \<notin> set (drop (ins_pos v vs) xs)" by (auto dest: in_set_dropD)
  then show ?thesis by (simp add: ins_at_def map_norm_dense)
qed

lemma set_ins_at: "None \<notin> set xs \<Longrightarrow> set (ins_at v vs x xs) = insert (Some x) (set xs)"
proof -
  assume d: "None \<notin> set xs"
  have "set (take (ins_pos v vs) xs) \<union> set (drop (ins_pos v vs) xs) = set xs"
    by (simp only: set_append [symmetric] append_take_drop_id)
  then show ?thesis unfolding ins_at_dense [OF d] by auto
qed

lemma uniq_ins_at:
  assumes d: "None \<notin> set xs" and u: "distinct (filter (\<lambda>s. s \<noteq> Some NaN) xs)"
    and f: "x \<noteq> NaN \<longrightarrow> Some x \<notin> set xs"
  shows "distinct (filter (\<lambda>s. s \<noteq> Some NaN) (ins_at v vs x xs))"
proof -
  let ?P = "\<lambda>s. s \<noteq> Some (NaN :: 'a js_val)"
  let ?p = "ins_pos v vs"
  have "distinct (filter ?P (take ?p xs) @ filter ?P (drop ?p xs))"
    using u by (simp only: filter_append [symmetric] append_take_drop_id)
  moreover have "set (take ?p xs) \<subseteq> set xs" "set (drop ?p xs) \<subseteq> set xs"
    by (simp_all add: set_take_subset set_drop_subset)
  ultimately show ?thesis
    using f unfolding ins_at_dense [OF d] by auto
qed

lemma ins_at_snoc:
  "None \<notin> set vs \<Longrightarrow> a \<noteq> None \<Longrightarrow>
   ins_at v (vs @ [a]) x (vs @ [a]) =
     (if js_gt (read_slot a) v then vs @ [a, Some x] else ins_at v vs x vs @ [a])"
  using ins_pos_le [of v vs]
  by (cases a) (simp_all add: ins_at_def ins_pos_snoc map_norm_dense norm_Some)

lemma js_gt_irrefl: "\<not> js_gt v v"
  by (simp add: js_gt_def split: js_val.splits)

lemma js_gt_chain: "\<not> js_gt a x \<Longrightarrow> js_gt a v \<Longrightarrow> \<not> js_gt v x"
  by (auto simp: js_gt_def split: js_val.splits)

lemma sorted_ins_at:
  "sorted_wrt no_rise vs \<Longrightarrow> None \<notin> set vs \<Longrightarrow> sorted_wrt no_rise (ins_at v vs v vs)"
proof (induction vs rule: rev_induct)
  case Nil
  show ?case by (simp add: ins_at_def)
next
  case (snoc a vs)
  from snoc.prems have s: "sorted_wrt no_rise vs" and b: "\<forall>x\<in>set vs. no_rise x a"
    and n: "None \<notin> set vs"
    by (simp_all add: sorted_wrt_append)
  have a: "a \<noteq> None"
  proof
    assume "a = None"
    with snoc.prems(2) show False by simp
  qed
  show ?case
  proof (cases "js_gt (read_slot a) v")
    case True
    have "no_rise x (Some v)" if "x \<in> set vs \<or> x = a" for x
    proof -
      from that b have "x = a \<or> \<not> js_gt (read_slot a) (read_slot x)"
        by (auto simp: no_rise_def)
      then show ?thesis
      proof
        assume "x = a"
        with True show ?thesis
          by (auto simp: no_rise_def read_slot_def js_gt_def split: js_val.splits)
      next
        assume "\<not> js_gt (read_slot a) (read_slot x)"
        from js_gt_chain [OF this True] show ?thesis by (simp add: no_rise_def read_slot_def)
      qed
    qed
    with snoc.prems(1) True show ?thesis
      using sorted_wrt_append [of no_rise "vs @ [a]" "[Some v]"]
      by (simp add: ins_at_snoc [OF n a])
  next
    case False
    have "no_rise x a" if "x \<in> set (ins_at v vs v vs)" for x
      using that b False by (auto simp: set_ins_at [OF n] no_rise_def read_slot_def)
    with snoc.IH [OF s n] False show ?thesis
      by (simp add: ins_at_snoc [OF n a] sorted_wrt_append)
  qed
qed

lemma front_no_tie:
  "sorted_wrt no_rise vs \<Longrightarrow> \<forall>s\<in>set (take (ins_pos v vs) vs). s \<noteq> Some v"
proof (induction vs rule: rev_induct)
  case Nil
  show ?case by simp
next
  case (snoc a vs)
  from snoc.prems have s: "sorted_wrt no_rise vs" and b: "\<forall>x\<in>set vs. no_rise x a"
    by (simp_all add: sorted_wrt_append)
  show ?case
  proof (cases "js_gt (read_slot a) v")
    case True
    have "x \<noteq> Some v" if "x \<in> set vs \<or> x = a" for x
    proof
      assume e: "x = Some v"
      from that show False
      proof
        assume "x \<in> set vs"
        with b have "\<not> js_gt (read_slot a) (read_slot x)" by (auto simp: no_rise_def)
        with True e show False by (simp add: read_slot_def)
      next
        assume "x = a"
        with True e show False by (simp add: read_slot_def js_gt_irrefl)
      qed
    qed
    with True show ?thesis by (auto simp: ins_pos_snoc)
  next
    case False
    with snoc.IH [OF s] ins_pos_le [of v vs] show ?thesis
      by (simp add: ins_pos_snoc)
  qed
qed

lemma removed_values_sorted:
  "sorted_wrt no_rise (values m) \<Longrightarrow> sorted_wrt no_rise (removed_values m k)"
proof -
  assume s: "sorted_wrt no_rise (values m)"
  define i where "i = nat (indexOf (keys m) k)"
  have "sorted_wrt no_rise (take i (values m) @ drop i (values m))" using s by simp
  moreover have "set (drop (Suc i) (values m)) \<subseteq> set (drop i (values m))"
    by (rule set_drop_subset_set_drop) simp
  ultimately have "sorted_wrt no_rise (take i (values m) @ drop (Suc i) (values m))"
    unfolding sorted_wrt_append using s by (auto simp: sorted_wrt_drop)
  with s show ?thesis by (simp add: removed_values_def i_def)
qed

lemma removed_values_subset: "set (removed_values m k) \<subseteq> set (values m)"
  using set_take_subset [of _ "values m"] set_drop_subset [of _ "values m"]
  by (auto simp: removed_values_def)

lemma removed_keys_subset: "set (removed_keys m k) \<subseteq> set (keys m)"
  using set_remove1_subset [of "Some k" "keys m"] by (auto simp: removed_keys_def)

lemma removed_keys_uniq:
  "distinct (filter P (keys m)) \<Longrightarrow> distinct (filter P (removed_keys m k))"
  by (simp add: removed_keys_def filter_remove1)

lemma removed_keys_fresh:
  assumes u: "distinct (filter (\<lambda>s. s \<noteq> Some NaN) (keys m))" and nn: "k \<noteq> NaN"
  shows "Some k \<notin> set (removed_keys m k)"
proof (cases "found (keys m) k")
  case True
  show ?thesis
  proof
    assume "Some k \<in> set (removed_keys m k)"
    with True nn have "Some k \<in> set (filter (\<lambda>s. s \<noteq> Some NaN) (remove1 (Some k) (keys m)))"
      by (simp add: removed_keys_def)
    then have "Some k \<in> set (remove1 (Some k) (filter (\<lambda>s. s \<noteq> Some NaN) (keys m)))"
      by (simp only: filter_remove1)
    with u show False by simp
  qed
next
  case False
  with nn show ?thesis by (simp add: removed_keys_def found_def)
qed

lemma removed_keys_fresh_distinct:
  assumes "distinct (keys m)" and "k \<noteq> NaN"
  shows "Some k \<notin> set (removed_keys m k)"
  using assms by (intro removed_keys_fresh) simp_all

lemma sorted_inv_set:
  assumes "sorted_inv m"
  shows "sorted_inv (SortedMap_set m k v)"
proof -
  from assms have len: "length (keys m) = length (values m)"
    and dk: "None \<notin> set (keys m)" and dv: "None \<notin> set (values m)"
    and u: "distinct (filter (\<lambda>s. s \<noteq> Some NaN) (keys m))"
    and s: "sorted_wrt no_rise (values m)"
    by (simp_all add: sorted_inv_def)
  have drv: "None \<notin> set (removed_values m k)" using dv removed_values_subset [of m k] by auto
  have drk: "None \<notin> set (removed_keys m k)" using dk removed_keys_subset [of m k] by auto
  have f: "k \<noteq> NaN \<longrightarrow> Some k \<notin> set (removed_keys m k)"
    using removed_keys_fresh [OF u] by simp
  show ?thesis
    unfolding sorted_inv_def SortedMap_set_eq [OF len]
    using removed_length [OF len, of k]
      uniq_ins_at [OF drk removed_keys_uniq [OF u] f]
      sorted_ins_at [OF removed_values_sorted [OF s, of k] drv, of v] drk drv
    by (simp add: length_ins_at set_ins_at)
qed

lemma sorted_inv_new: "sorted_inv (new_SortedMap ks vs)"
  by (simp add: new_SortedMap_eq sorted_inv_def)

lemma SortedMap_sets_snoc:
  "SortedMap_sets m (calls @ [(k, v)]) = SortedMap_set (SortedMap_sets m calls) k v"
  by (simp add: SortedMap_sets_def)

lemma sorted_inv_sets: "sorted_inv m \<Longrightarrow> sorted_inv (SortedMap_sets m calls)"
proof (induction calls rule: rev_induct)
  case Nil
  then show ?case by (simp add: SortedMap_sets_def)
next
  case (snoc c calls)
  then show ?case by (cases c) (simp add: SortedMap_sets_snoc sorted_inv_set)
qed

lemma SortedMap_set_numbers:
  assumes inv: "sorted_inv m" and n: "\<forall>s\<in>set (values m). is_number (read_slot s)"
    and v: "is_number v"
  shows "\<forall>s\<in>set (values (SortedMap_set m k v)). is_number (read_slot s)"
proof -
  from inv have len: "length (keys m) = length (values m)" and dv: "None \<notin> set (values m)"
    by (simp_all add: sorted_inv_def)
  have drv: "None \<notin> set (removed_values m k)" using dv removed_values_subset [of m k] by auto
  show ?thesis
    using n v removed_values_subset [of m k]
    by (auto simp: SortedMap_set_eq [OF len] set_ins_at [OF drv] read_slot_def)
qed

lemma SortedMap_sets_numbers:
  assumes "list_all (\<lambda>c. is_number (snd c)) calls"
  shows "\<forall>s\<in>set (values (SortedMap_sets (new_SortedMap ks vs) calls)). is_number (read_slot s)"
  using assms
proof (induction calls rule: rev_induct)
  case Nil
  show ?case by (simp add: SortedMap_sets_def new_SortedMap_eq)
next
  case (snoc c calls)
  obtain k v where c: "c = (k, v)" by (cases c)
  from snoc.prems c have "list_all (\<lambda>c. is_number (snd c)) calls" "is_number v" by simp_all
  with snoc.IH show ?case
    unfolding c SortedMap_sets_snoc
    by (intro SortedMap_set_numbers sorted_inv_sets sorted_inv_new) simp_all
qed

lemma js_get_nat: "n < length xs \<Longrightarrow> js_get xs (int n) = read_slot (xs ! n)"
  by (simp add: js_get_def)

lemma sorted_numbers_adjacent:
  assumes "sorted_inv m" and "\<forall>s\<in>set (values m). is_number (read_slot s)"
    and "Suc i < length (values m)"
  shows "js_ge (js_get (values m) (int i)) (js_get (values m) (int (Suc i)))"
proof -
  from assms(1) have s: "sorted_wrt no_rise (values m)" by (simp add: sorted_inv_def)
  from assms(3) have "values m ! i \<in> set (values m)" "values m ! Suc i \<in> set (values m)"
    by simp_all
  with assms(2) have "is_number (read_slot (values m ! i))"
    "is_number (read_slot (values m ! Suc i))" by blast+
  then obtain a b where ab: "read_slot (values m ! i) = Val a" "read_slot (values m ! Suc i) = Val b"
    by (metis is_number.elims(2))
  from s assms(3) have "no_rise (values m ! i) (values m ! Suc i)"
    by (simp add: sorted_wrt_nth_less)
  with ab have "a \<ge> b" by (simp add: no_rise_def js_gt_def)
  moreover from assms(3) have "i < length (values m)" by simp
  ultimately show ?thesis
    unfolding js_get_nat [OF assms(3)] js_get_nat [OF \<open>i < length (values m)\<close>] ab
    by (simp add: js_ge_def)
qed

lemma SortedMap_set_position:
  assumes inv: "sorted_inv m"
  shows "ins_pos v (removed_values m k) < length (keys (SortedMap_set m k v)) \<and>
         keys (SortedMap_set m k v) ! ins_pos v (removed_values m k) = Some k \<and>
         values (SortedMap_set m k v) ! ins_pos v (removed_values m k) = Some v \<and>
         (k \<noteq> NaN \<longrightarrow> indexOf (keys (SortedMap_set m k v)) k = int (ins_pos v (removed_values m k))) \<and>
         (\<forall>j < length (values (SortedMap_set m k v)).
            values (SortedMap_set m k v) ! j = Some v \<and> j \<noteq> ins_pos v (removed_values m k)
            \<longrightarrow> ins_pos v (removed_values m k) < j)"
proof -
  define rk where "rk = removed_keys m k"
  define rv where "rv = removed_values m k"
  define p where "p = ins_pos v rv"
  define m1 where "m1 = SortedMap_set m k v"
  from inv have len: "length (keys m) = length (values m)"
    and dk: "None \<notin> set (keys m)" and dv: "None \<notin> set (values m)"
    and u: "distinct (filter (\<lambda>s. s \<noteq> Some NaN) (keys m))"
    and s: "sorted_wrt no_rise (values m)"
    by (simp_all add: sorted_inv_def)
  have rl: "length rk = length rv" unfolding rk_def rv_def by (rule removed_length [OF len])
  have drv: "None \<notin> set rv" unfolding rv_def using dv removed_values_subset [of m k] by auto
  have drk: "None \<notin> set rk" unfolding rk_def using dk removed_keys_subset [of m k] by auto
  have m1: "m1 = m\<lparr>keys := ins_at v rv k rk, values := ins_at v rv v rv\<rparr>"
    unfolding m1_def rk_def rv_def by (rule SortedMap_set_eq [OF len])
  have p: "p \<le> length rv" "p \<le> length rk"
    using ins_pos_le [of v rv] rl by (simp_all add: p_def)
  have k1: "keys m1 = take p rk @ Some k # drop p rk"
    by (simp add: m1 ins_at_dense [OF drk] p_def)
  have v1: "values m1 = take p rv @ Some v # drop p rv"
    by (simp add: m1 ins_at_dense [OF drv] p_def)
  have c1: "p < length (keys m1)" using p(2) by (simp add: k1)
  have c2: "keys m1 ! p = Some k" using p(2) by (simp add: k1 nth_append)
  have c3: "values m1 ! p = Some v" using p(1) by (simp add: v1 nth_append)
  have c4: "indexOf (keys m1) k = int p" if nn: "k \<noteq> NaN"
  proof -
    have "Some k \<notin> set rk" unfolding rk_def by (rule removed_keys_fresh [OF u nn])
    from indexOf_ins_at [OF this nn p(2) [unfolded p_def]] show ?thesis
      by (simp add: m1 p_def)
  qed
  have srv: "sorted_wrt no_rise rv" unfolding rv_def by (rule removed_values_sorted [OF s])
  have c5: "p < j" if "j < length (values m1)" "values m1 ! j = Some v" "j \<noteq> p" for j
  proof (rule ccontr)
    assume "\<not> p < j"
    with that(3) have lt: "j < p" by simp
    with p(1) have e: "values m1 ! j = take p rv ! j" by (simp add: v1 nth_append)
    from lt p(1) have "take p rv ! j \<in> set (take p rv)" by (intro nth_mem) simp
    with front_no_tie [OF srv, of v] have "take p rv ! j \<noteq> Some v"
      unfolding p_def by blast
    with e that(2) show False by simp
  qed
  from c1 c2 c3 c4 c5 show ?thesis unfolding m1_def p_def rv_def by blast
qed

section \<open>The claims\<close>

subsection \<open>C1: a new SortedMap is empty\<close>

text \<open>
  Claim C1. Whatever key and value arrays are passed to \<^verbatim>\<open>new SortedMap\<close>, the
  object built has empty storage, and \<^verbatim>\<open>get(k)\<close> on it is \<^verbatim>\<open>undefined\<close> for
  every key \<open>k\<close>, the keys passed in included.
\<close>

theorem new_SortedMap_empty:
  "new_SortedMap ks vs = \<lparr>cls = SortedMap, keys = [], values = []\<rparr> \<and>
   UnsortedMap_get (new_SortedMap ks vs) k = Undefined"
proof -
  note e = new_SortedMap_eq [of ks vs]
  have "UnsortedMap_get \<lparr>cls = SortedMap, keys = [], values = []\<rparr> k = Undefined"
    by (simp add: UnsortedMap_get_def indexOf_def js_get_def)
  with e show ?thesis by simp
qed

subsection \<open>C2: the values of a SortedMap never rise\<close>

text \<open>
  Claim C2 as stated fails when a value is \<^verbatim>\<open>NaN\<close>: after
  \<^verbatim>\<open>set("a",1).set("b",NaN)\<close> the values are \<open>NaN, 1\<close>, and \<^verbatim>\<open>NaN >= 1\<close> is
  false.
\<close>

theorem NaN_value_counterexample:
  "values (SortedMap_sets (new_SortedMap [] []) [(Val ''a'', Val (1 :: int)), (Val ''b'', NaN)])
     = [Some NaN, Some (Val 1)] \<and>
   \<not> js_ge
       (js_get (values (SortedMap_sets (new_SortedMap [] []) [(Val ''a'', Val (1 :: int)), (Val ''b'', NaN)])) 0)
       (js_get (values (SortedMap_sets (new_SortedMap [] []) [(Val ''a'', Val (1 :: int)), (Val ''b'', NaN)])) 1)"
  by code_simp

text \<open>
  Claim C2, amended. After any sequence of calls of \<^verbatim>\<open>set\<close> on a new
  \<^verbatim>\<open>SortedMap\<close> in which every value set is a number other than \<^verbatim>\<open>NaN\<close>, every
  two neighbouring values satisfy \<^verbatim>\<open>values[i] >= values[i+1]\<close>.
\<close>

theorem SortedMap_values_descending:
  "list_all (\<lambda>c. is_number (snd c)) calls \<Longrightarrow>
   \<forall>i. Suc i < length (values (SortedMap_sets (new_SortedMap ks vs) calls)) \<longrightarrow>
     js_ge (js_get (values (SortedMap_sets (new_SortedMap ks vs) calls)) (int i))
           (js_get (values (SortedMap_sets (new_SortedMap ks vs) calls)) (int (Suc i)))"
  using sorted_numbers_adjacent [OF sorted_inv_sets [OF sorted_inv_new] SortedMap_sets_numbers]
  by blast

theorem SortedMap_values_descending_witness:
  "list_all (\<lambda>c. is_number (snd c)) [(Val ''x'', Val (5 :: int)), (Val ''y'', Val 9), (Val ''z'', Val 7)] \<and>
   Suc 1 < length (values (SortedMap_sets (new_SortedMap [] [])
       [(Val ''x'', Val (5 :: int)), (Val ''y'', Val 9), (Val ''z'', Val 7)])) \<and>
   values (SortedMap_sets (new_SortedMap [] [])
       [(Val ''x'', Val (5 :: int)), (Val ''y'', Val 9), (Val ''z'', Val 7)])
     = [Some (Val 9), Some (Val 7), Some (Val 5)] \<and>
   js_ge (js_get (values (SortedMap_sets (new_SortedMap [] [])
            [(Val ''x'', Val (5 :: int)), (Val ''y'', Val 9), (Val ''z'', Val 7)])) (int 1))
         (js_get (values (SortedMap_sets (new_SortedMap [] [])
            [(Val ''x'', Val (5 :: int)), (Val ''y'', Val 9), (Val ''z'', Val 7)])) (int (Suc 1)))"
proof -
  let ?calls = "[(Val ''x'', Val (5 :: int)), (Val ''y'', Val 9), (Val ''z'', Val 7)]"
  let ?m = "SortedMap_sets (new_SortedMap [] []) ?calls"
  have h: "list_all (\<lambda>c. is_number (snd c)) ?calls" by simp
  have v: "values ?m = [Some (Val 9), Some (Val 7), Some (Val 5)]" by code_simp
  then have len: "Suc 1 < length (values ?m)" by simp
  from SortedMap_values_descending [OF h, of "[]" "[]"] len
  have "js_ge (js_get (values ?m) (int 1)) (js_get (values ?m) (int (Suc 1)))" by blast
  with h v len show ?thesis by blast
qed

subsection \<open>C3: where SortedMap.set puts a value that is already stored\<close>

text \<open>
  Claim C3 as stated fails on its own scenario: after
  \<^verbatim>\<open>set("x",5).set("y",9).set("z",9)\<close> the keys are not \<open>y, z, x\<close>.
\<close>

theorem tie_scenario_counterexample:
  "keys (SortedMap_sets (new_SortedMap [] [])
          [(Val ''x'', Val (5 :: int)), (Val ''y'', Val 9), (Val ''z'', Val 9)])
     \<noteq> [Some (Val ''y''), Some (Val ''z''), Some (Val ''x'')]"
  by code_simp

text \<open>
  Claim C3, amended. The loop stops only behind a value that is strictly greater, so
  an entry whose value is already stored is put in front of the entries with that
  value: after \<^verbatim>\<open>set(k, v)\<close> on a \<^verbatim>\<open>SortedMap\<close> reached by calls of
  \<^verbatim>\<open>set\<close>, the entry of \<open>k\<close> holds \<open>v\<close> and every other slot holding \<open>v\<close>
  has a greater index. The entry of \<open>k\<close> is the one at \<^verbatim>\<open>indexOf(k)\<close>; for the key
  \<^verbatim>\<open>NaN\<close>, which \<^verbatim>\<open>indexOf\<close> does not find, the same is said of the index the
  entry was put at. The scenario gives the keys \<open>z, y, x\<close> with the values
  \<open>9, 9, 5\<close>.
\<close>

theorem tie_goes_in_front:
  "(k \<noteq> NaN \<longrightarrow>
      0 \<le> indexOf (keys (SortedMap_set (SortedMap_sets (new_SortedMap ks vs) calls) k v)) k \<and>
      js_get (values (SortedMap_set (SortedMap_sets (new_SortedMap ks vs) calls) k v))
        (indexOf (keys (SortedMap_set (SortedMap_sets (new_SortedMap ks vs) calls) k v)) k) = v \<and>
      (\<forall>j < length (values (SortedMap_set (SortedMap_sets (new_SortedMap ks vs) calls) k v)).
         values (SortedMap_set (SortedMap_sets (new_SortedMap ks vs) calls) k v) ! j = Some v \<and>
         int j \<noteq> indexOf (keys (SortedMap_set (SortedMap_sets (new_SortedMap ks vs) calls) k v)) k \<longrightarrow>
         indexOf (keys (SortedMap_set (SortedMap_sets (new_SortedMap ks vs) calls) k v)) k < int j)) \<and>
   (\<exists>p < length (keys (SortedMap_set (SortedMap_sets (new_SortedMap ks vs) calls) k v)).
      keys (SortedMap_set (SortedMap_sets (new_SortedMap ks vs) calls) k v) ! p = Some k \<and>
      values (SortedMap_set (SortedMap_sets (new_SortedMap ks vs) calls) k v) ! p = Some v \<and>
      (\<forall>j < length (values (SortedMap_set (SortedMap_sets (new_SortedMap ks vs) calls) k v)).
         values (SortedMap_set (SortedMap_sets (new_SortedMap ks vs) calls) k v) ! j = Some v \<and>
         j \<noteq> p \<longrightarrow> p < j)) \<and>
   keys (SortedMap_sets (new_SortedMap [] [])
           [(Val ''x'', Val (5 :: int)), (Val ''y'', Val 9), (Val ''z'', Val 9)])
     = [Some (Val ''z''), Some (Val ''y''), Some (Val ''x'')] \<and>
   values (SortedMap_sets (new_SortedMap [] [])
           [(Val ''x'', Val (5 :: int)), (Val ''y'', Val 9), (Val ''z'', Val 9)])
     = [Some (Val 9), Some (Val 9), Some (Val 5)]"
proof -
  define m0 where "m0 = SortedMap_sets (new_SortedMap ks vs) calls"
  define m1 where "m1 = SortedMap_set m0 k v"
  define p where "p = ins_pos v (removed_values m0 k)"
  have inv: "sorted_inv m0" unfolding m0_def by (rule sorted_inv_sets [OF sorted_inv_new])
  have pos: "p < length (keys m1)" "keys m1 ! p = Some k" "values m1 ! p = Some v"
    "k \<noteq> NaN \<Longrightarrow> indexOf (keys m1) k = int p"
    "\<And>j. j < length (values m1) \<Longrightarrow> values m1 ! j = Some v \<Longrightarrow> j \<noteq> p \<Longrightarrow> p < j"
    using SortedMap_set_position [OF inv, of v k] unfolding m1_def p_def by blast+
  have "sorted_inv m1" unfolding m1_def by (rule sorted_inv_set [OF inv])
  then have len1: "length (keys m1) = length (values m1)" by (simp add: sorted_inv_def)
  have first: "0 \<le> indexOf (keys m1) k \<and>
      js_get (values m1) (indexOf (keys m1) k) = v \<and>
      (\<forall>j < length (values m1). values m1 ! j = Some v \<and> int j \<noteq> indexOf (keys m1) k \<longrightarrow>
         indexOf (keys m1) k < int j)" if nn: "k \<noteq> NaN"
  proof -
    note ix = pos(4) [OF nn]
    from pos(1) len1 have "js_get (values m1) (int p) = read_slot (values m1 ! p)"
      by (intro js_get_nat) simp
    with pos(3) have "js_get (values m1) (int p) = v" by (simp add: read_slot_def)
    with pos(5) show ?thesis unfolding ix by auto
  qed
  have second: "\<exists>p < length (keys m1). keys m1 ! p = Some k \<and> values m1 ! p = Some v \<and>
      (\<forall>j < length (values m1). values m1 ! j = Some v \<and> j \<noteq> p \<longrightarrow> p < j)"
    using pos(1,2,3,5) by blast
  have c1: "keys (SortedMap_sets (new_SortedMap [] [])
           [(Val ''x'', Val (5 :: int)), (Val ''y'', Val 9), (Val ''z'', Val 9)])
     = [Some (Val ''z''), Some (Val ''y''), Some (Val ''x'')]" by code_simp
  have c2: "values (SortedMap_sets (new_SortedMap [] [])
           [(Val ''x'', Val (5 :: int)), (Val ''y'', Val 9), (Val ''z'', Val 9)])
     = [Some (Val 9), Some (Val 9), Some (Val 5)]" by code_simp
  from first second c1 c2 show ?thesis unfolding m1_def m0_def by blast
qed

theorem tie_goes_in_front_witness:
  "Val ''z'' \<noteq> (NaN :: string js_val) \<and>
   1 < length (values (SortedMap_set (SortedMap_sets (new_SortedMap [] [])
         [(Val ''x'', Val (5 :: int)), (Val ''y'', Val 9)]) (Val ''z'') (Val 9))) \<and>
   values (SortedMap_set (SortedMap_sets (new_SortedMap [] [])
         [(Val ''x'', Val (5 :: int)), (Val ''y'', Val 9)]) (Val ''z'') (Val 9)) ! 1 = Some (Val 9) \<and>
   keys (SortedMap_set (SortedMap_sets (new_SortedMap [] [])
         [(Val ''x'', Val (5 :: int)), (Val ''y'', Val 9)]) (Val ''z'') (Val 9)) ! 1 = Some (Val ''y'') \<and>
   int 1 \<noteq> indexOf (keys (SortedMap_set (SortedMap_sets (new_SortedMap [] [])
         [(Val ''x'', Val (5 :: int)), (Val ''y'', Val 9)]) (Val ''z'') (Val 9))) (Val ''z'') \<and>
   indexOf (keys (SortedMap_set (SortedMap_sets (new_SortedMap [] [])
         [(Val ''x'', Val (5 :: int)), (Val ''y'', Val 9)]) (Val ''z'') (Val 9))) (Val ''z'') < int 1"
proof -
  let ?m1 = "SortedMap_set (SortedMap_sets (new_SortedMap [] [])
         [(Val ''x'', Val (5 :: int)), (Val ''y'', Val 9)]) (Val ''z'') (Val 9)"
  have h0: "Val ''z'' \<noteq> (NaN :: string js_val)" by simp
  have v: "values ?m1 = [Some (Val 9), Some (Val 9), Some (Val 5)]" by code_simp
  have k: "keys ?m1 = [Some (Val ''z''), Some (Val ''y''), Some (Val ''x'')]" by code_simp
  from v have h1: "1 < length (values ?m1)" and h2: "values ?m1 ! 1 = Some (Val 9)" by simp_all
  from k have h4: "keys ?m1 ! 1 = Some (Val ''y'')" by simp
  have h3: "int 1 \<noteq> indexOf (keys ?m1) (Val ''z'')" by code_simp
  from tie_goes_in_front [of "Val ''z''" "[]" "[]" "[(Val ''x'', Val (5 :: int)), (Val ''y'', Val 9)]" "Val 9"]
    h0 h1 h2 h3
  have "indexOf (keys ?m1) (Val ''z'') < int 1" by blast
  with h0 h1 h2 h3 h4 show ?thesis by blast
qed

subsection \<open>C4: map on a SortedMap\<close>

text \<open>
  Claim C4, at the input where the code departs from it: a \<^verbatim>\<open>SortedMap\<close> holding
  the entry \<open>(a, 1)\<close> is mapped to a container with no key and no value, where the
  claim (and the comment above \<^verbatim>\<open>map\<close> in the source) promise the key \<open>a\<close> with
  the callback's result. The receiver itself is left as it was.
\<close>

theorem SortedMap_map_loses_entries:
  "keys (SortedMap_sets (new_SortedMap [] []) [(Val ''a'', Val (1 :: int))]) = [Some (Val ''a'')] \<and>
   values (SortedMap_sets (new_SortedMap [] []) [(Val ''a'', Val (1 :: int))]) = [Some (Val 1)] \<and>
   keys (UnsortedMap_map (SortedMap_sets (new_SortedMap [] []) [(Val ''a'', Val (1 :: int))])
      (\<lambda>k v. Val 2)) = [] \<and>
   values (UnsortedMap_map (SortedMap_sets (new_SortedMap [] []) [(Val ''a'', Val (1 :: int))])
      (\<lambda>k v. Val 2)) = []"
  by code_simp

subsection \<open>C5: lookup in an UnsortedMap after calls of set\<close>

text \<open>
  Claim C5 as stated fails for the key \<^verbatim>\<open>NaN\<close>: after \<^verbatim>\<open>set(NaN, 1)\<close> on an
  empty \<^verbatim>\<open>UnsortedMap\<close>, \<^verbatim>\<open>has(NaN)\<close> is false and \<^verbatim>\<open>get(NaN)\<close> is
  \<^verbatim>\<open>undefined\<close>, since \<^verbatim>\<open>indexOf\<close> compares with \<^verbatim>\<open>===\<close>.
\<close>

theorem NaN_key_lookup_counterexample:
  "\<not> UnsortedMap_has
       (UnsortedMap_sets (new_UnsortedMap [] []) [(NaN :: string js_val, Val (1 :: int))]) NaN \<and>
   UnsortedMap_get
       (UnsortedMap_sets (new_UnsortedMap [] []) [(NaN :: string js_val, Val (1 :: int))]) NaN
     \<noteq> Val 1"
  by code_simp

text \<open>
  Claim C5, amended. Start from the empty container \<^verbatim>\<open>new UnsortedMap()\<close> and make
  any sequence of calls of \<^verbatim>\<open>set\<close>. For every key \<open>k\<close> other than \<^verbatim>\<open>NaN\<close>,
  \<^verbatim>\<open>get(k)\<close> is the value of the most recent call \<^verbatim>\<open>set(k, v)\<close>, and
  \<^verbatim>\<open>undefined\<close> when \<open>k\<close> was never set (\<open>map_of\<close> on the calls, latest first,
  says both), and \<^verbatim>\<open>has(k)\<close> is true exactly when \<open>k\<close> was set. With no call at
  all this is the empty container, where \<^verbatim>\<open>has\<close> is false for every key. For a key
  other than \<^verbatim>\<open>NaN\<close> that was set, the same holds when the calls start from any
  container with as many keys as values. For the key \<^verbatim>\<open>NaN\<close>, \<^verbatim>\<open>get\<close> is
  \<^verbatim>\<open>undefined\<close> and \<^verbatim>\<open>has\<close> is false, whatever was set.
\<close>

theorem set_then_get_has:
  fixes calls :: "('k js_val \<times> 'v js_val) list"
  shows "(k \<noteq> NaN \<longrightarrow>
      UnsortedMap_get (UnsortedMap_sets (new_UnsortedMap [] []) calls) k
        = (case map_of (rev calls) k of None \<Rightarrow> Undefined | Some v \<Rightarrow> v) \<and>
      UnsortedMap_has (UnsortedMap_sets (new_UnsortedMap [] []) calls) k = (k \<in> fst ` set calls)) \<and>
   (k \<noteq> NaN \<and> length (keys m) = length (values m) \<and> k \<in> fst ` set calls \<longrightarrow>
      UnsortedMap_get (UnsortedMap_sets m calls) k
        = (case map_of (rev calls) k of None \<Rightarrow> Undefined | Some v \<Rightarrow> v) \<and>
      UnsortedMap_has (UnsortedMap_sets m calls) k) \<and>
   UnsortedMap_get (UnsortedMap_sets m calls) NaN = Undefined \<and>
   \<not> UnsortedMap_has (UnsortedMap_sets m calls) NaN"
proof -
  let ?e = "new_UnsortedMap [] [] :: ('k, 'v) js_map"
  have len: "length (keys ?e) = length (values ?e)"
    by (simp add: new_UnsortedMap_def UnsortedMap_constructor_def)
  have g: "UnsortedMap_get ?e k = Undefined"
    by (simp add: new_UnsortedMap_def UnsortedMap_constructor_def UnsortedMap_get_def
        indexOf_def js_get_def)
  have h: "\<not> UnsortedMap_has ?e k"
    by (simp add: new_UnsortedMap_def UnsortedMap_constructor_def UnsortedMap_has_def indexOf_def)
  have empty: "UnsortedMap_get (UnsortedMap_sets ?e calls) k
        = (case map_of (rev calls) k of None \<Rightarrow> Undefined | Some v \<Rightarrow> v) \<and>
      UnsortedMap_has (UnsortedMap_sets ?e calls) k = (k \<in> fst ` set calls)" if nn: "k \<noteq> NaN"
    using UnsortedMap_sets_get [OF len nn, of calls] UnsortedMap_sets_has [OF nn, of ?e calls] g h
    by (simp split: option.splits)
  have any: "UnsortedMap_get (UnsortedMap_sets m calls) k
        = (case map_of (rev calls) k of None \<Rightarrow> Undefined | Some v \<Rightarrow> v) \<and>
      UnsortedMap_has (UnsortedMap_sets m calls) k"
    if nn: "k \<noteq> NaN" and l: "length (keys m) = length (values m)" and k: "k \<in> fst ` set calls"
  proof -
    from k have "k \<in> fst ` set (rev calls)" by simp
    then have "map_of (rev calls) k \<noteq> None"
      by (simp only: map_of_eq_None_iff not_not)
    then obtain v where "map_of (rev calls) k = Some v" by blast
    with UnsortedMap_sets_get [OF l nn, of calls] UnsortedMap_sets_has [OF nn, of m calls] k
    show ?thesis by simp
  qed
  have nan: "UnsortedMap_get (UnsortedMap_sets m calls) NaN = Undefined \<and>
      \<not> UnsortedMap_has (UnsortedMap_sets m calls) NaN"
    by (simp add: UnsortedMap_get_NaN UnsortedMap_has_iff not_found_NaN)
  from empty any nan show ?thesis by blast
qed

theorem set_then_get_has_witness:
  "Val ''a'' \<noteq> (NaN :: string js_val) \<and>
   length (keys (new_UnsortedMap [Some (Val ''a''), Some (Val ''b'')] [Some (Val (1 :: int)), Some (Val 2)])) =
     length (values (new_UnsortedMap [Some (Val ''a''), Some (Val ''b'')] [Some (Val (1 :: int)), Some (Val 2)])) \<and>
   Val ''a'' \<in> fst ` set [(Val ''a'', Val (3 :: int)), (NaN, Val 4), (Val ''a'', Val 5)] \<and>
   UnsortedMap_get (UnsortedMap_sets
       (new_UnsortedMap [Some (Val ''a''), Some (Val ''b'')] [Some (Val (1 :: int)), Some (Val 2)])
       [(Val ''a'', Val 3), (NaN, Val 4), (Val ''a'', Val 5)]) (Val ''a'') = Val 5 \<and>
   UnsortedMap_has (UnsortedMap_sets
       (new_UnsortedMap [Some (Val ''a''), Some (Val ''b'')] [Some (Val (1 :: int)), Some (Val 2)])
       [(Val ''a'', Val 3), (NaN, Val 4), (Val ''a'', Val 5)]) (Val ''a'')"
proof -
  let ?m = "new_UnsortedMap [Some (Val ''a''), Some (Val ''b'')] [Some (Val (1 :: int)), Some (Val 2)]"
  let ?calls = "[(Val ''a'', Val (3 :: int)), (NaN, Val 4), (Val ''a'', Val 5)]"
  have h0: "Val ''a'' \<noteq> (NaN :: string js_val)" by simp
  have h1: "length (keys ?m) = length (values ?m)" by code_simp
  have h2: "Val ''a'' \<in> fst ` set ?calls" by simp
  have v: "map_of (rev ?calls) (Val ''a'') = Some (Val 5)" by simp
  from set_then_get_has [of "Val ''a''" ?calls ?m] h0 h1 h2
  have "UnsortedMap_get (UnsortedMap_sets ?m ?calls) (Val ''a'')
        = (case map_of (rev ?calls) (Val ''a'') of None \<Rightarrow> Undefined | Some v \<Rightarrow> v) \<and>
      UnsortedMap_has (UnsortedMap_sets ?m ?calls) (Val ''a'')" by blast
  with h0 h1 h2 v show ?thesis by simp
qed

subsection \<open>C6: an UnsortedMap keeps the order of insertion\<close>

text \<open>
  Claim C6 as stated fails for the key \<^verbatim>\<open>NaN\<close>: a second \<^verbatim>\<open>set(NaN, 2)\<close> does
  not update the entry of \<^verbatim>\<open>NaN\<close> in place, it appends another one.
\<close>

theorem NaN_key_appended_counterexample:
  "keys (UnsortedMap_sets (new_UnsortedMap [] []) [(NaN :: string js_val, Val (1 :: int))])
     = [Some NaN] \<and>
   keys (UnsortedMap_set
          (UnsortedMap_sets (new_UnsortedMap [] []) [(NaN :: string js_val, Val (1 :: int))])
          NaN (Val 2))
     = [Some NaN, Some NaN] \<and>
   values (UnsortedMap_set
          (UnsortedMap_sets (new_UnsortedMap [] []) [(NaN :: string js_val, Val (1 :: int))])
          NaN (Val 2))
     = [Some (Val 1), Some (Val 2)]"
  by code_simp

text \<open>
  Claim C6, amended. Let the calls made on an empty \<^verbatim>\<open>UnsortedMap\<close> contain a call
  \<^verbatim>\<open>set(A, a)\<close> before the first call that sets a different key \<open>B\<close>, neither key
  being \<^verbatim>\<open>NaN\<close>. Then, after all the calls, however many follow, the index of
  \<open>A\<close> is smaller than the index of \<open>B\<close>. A call of \<^verbatim>\<open>set\<close> on a key that
  \<^verbatim>\<open>has\<close> finds (so not \<^verbatim>\<open>NaN\<close>) leaves the keys as they are and overwrites the
  value at the index of the key. And \<^verbatim>\<open>set("a",1).set("b",2).set("a",3)\<close> gives
  the keys \<open>a, b\<close> with the values \<open>3, 2\<close>.
\<close>

theorem insertion_order_kept:
  "(A \<noteq> B \<and> A \<noteq> NaN \<and> B \<noteq> NaN \<and> B \<notin> fst ` set pre \<and> B \<notin> fst ` set mid \<longrightarrow>
      0 \<le> indexOf (keys (UnsortedMap_sets (new_UnsortedMap [] [])
                 (pre @ (A, a) # mid @ (B, b) # post))) A \<and>
      indexOf (keys (UnsortedMap_sets (new_UnsortedMap [] [])
                 (pre @ (A, a) # mid @ (B, b) # post))) A
      < indexOf (keys (UnsortedMap_sets (new_UnsortedMap [] [])
                 (pre @ (A, a) # mid @ (B, b) # post))) B) \<and>
   (length (keys m) = length (values m) \<and> UnsortedMap_has m k \<longrightarrow>
      keys (UnsortedMap_set m k v) = keys m \<and>
      values (UnsortedMap_set m k v) = (values m)[nat (indexOf (keys m) k) := Some v]) \<and>
   keys (UnsortedMap_sets (new_UnsortedMap [] [])
           [(Val ''a'', Val (1 :: int)), (Val ''b'', Val 2), (Val ''a'', Val 3)])
     = [Some (Val ''a''), Some (Val ''b'')] \<and>
   values (UnsortedMap_sets (new_UnsortedMap [] [])
           [(Val ''a'', Val (1 :: int)), (Val ''b'', Val 2), (Val ''a'', Val 3)])
     = [Some (Val 3), Some (Val 2)]"
proof -
  have c1: "keys (UnsortedMap_sets (new_UnsortedMap [] [])
           [(Val ''a'', Val (1 :: int)), (Val ''b'', Val 2), (Val ''a'', Val 3)])
     = [Some (Val ''a''), Some (Val ''b'')]" by code_simp
  have c2: "values (UnsortedMap_sets (new_UnsortedMap [] [])
           [(Val ''a'', Val (1 :: int)), (Val ''b'', Val 2), (Val ''a'', Val 3)])
     = [Some (Val 3), Some (Val 2)]" by code_simp
  show ?thesis
    using first_set_order [of A B pre mid a b post] UnsortedMap_set_in_place [of m k v] c1 c2
    by blast
qed

theorem insertion_order_kept_witness:
  "Val ''a'' \<noteq> (Val ''b'' :: string js_val) \<and> Val ''a'' \<noteq> (NaN :: string js_val) \<and>
   Val ''b'' \<noteq> (NaN :: string js_val) \<and>
   Val ''b'' \<notin> fst ` set ([] :: (string js_val \<times> int js_val) list) \<and>
   indexOf (keys (UnsortedMap_sets (new_UnsortedMap [] [])
       ([] @ (Val ''a'', Val (1 :: int)) # [] @ (Val ''b'', Val 2) # [(Val ''a'', Val 3)]))) (Val ''a'')
   < indexOf (keys (UnsortedMap_sets (new_UnsortedMap [] [])
       ([] @ (Val ''a'', Val (1 :: int)) # [] @ (Val ''b'', Val 2) # [(Val ''a'', Val 3)]))) (Val ''b'') \<and>
   length (keys (UnsortedMap_sets (new_UnsortedMap [] []) [(Val ''a'', Val (1 :: int)), (Val ''b'', Val 2)])) =
     length (values (UnsortedMap_sets (new_UnsortedMap [] []) [(Val ''a'', Val (1 :: int)), (Val ''b'', Val 2)])) \<and>
   UnsortedMap_has (UnsortedMap_sets (new_UnsortedMap [] [])
       [(Val ''a'', Val (1 :: int)), (Val ''b'', Val 2)]) (Val ''a'') \<and>
   keys (UnsortedMap_set (UnsortedMap_sets (new_UnsortedMap [] [])
       [(Val ''a'', Val (1 :: int)), (Val ''b'', Val 2)]) (Val ''a'') (Val 3))
     = keys (UnsortedMap_sets (new_UnsortedMap [] []) [(Val ''a'', Val (1 :: int)), (Val ''b'', Val 2)])"
proof -
  let ?m = "UnsortedMap_sets (new_UnsortedMap [] []) [(Val ''a'', Val (1 :: int)), (Val ''b'', Val 2)]"
  have h1: "Val ''a'' \<noteq> (Val ''b'' :: string js_val)" "Val ''a'' \<noteq> (NaN :: string js_val)"
    "Val ''b'' \<noteq> (NaN :: string js_val)" by simp_all
  have h2: "Val ''b'' \<notin> fst ` set ([] :: (string js_val \<times> int js_val) list)" by simp
  have h3: "length (keys ?m) = length (values ?m)" by code_simp
  have h4: "UnsortedMap_has ?m (Val ''a'')" by code_simp
  from insertion_order_kept [of "Val ''a''" "Val ''b''" "[]" "[]" "Val 1" "Val 2"
      "[(Val ''a'', Val 3)]" ?m "Val ''a''" "Val 3"]
    h1 h2 h3 h4
  show ?thesis by blast
qed

subsection \<open>C7: upsert\<close>

text \<open>
  Claim C7. \<^verbatim>\<open>m.upsert(k, f)\<close> leaves \<open>m\<close> as \<^verbatim>\<open>m.set(k, f(m.get(k)))\<close> does,
  with the \<^verbatim>\<open>set\<close> of the class of \<open>m\<close>; when \<open>k\<close> is missing, \<open>f\<close> is
  given \<^verbatim>\<open>undefined\<close>.
\<close>

theorem upsert_is_set_of_get:
  "UnsortedMap_upsert m k f = call_set m k (f (UnsortedMap_get m k)) \<and>
   (\<not> UnsortedMap_has m k \<longrightarrow> UnsortedMap_upsert m k f = call_set m k (f Undefined))"
  by (simp add: UnsortedMap_upsert_def UnsortedMap_get_absent)

theorem upsert_is_set_of_get_witness:
  "\<not> UnsortedMap_has (SortedMap_sets (new_SortedMap [] []) [(Val ''a'', Val (1 :: int))]) (Val ''b'') \<and>
   UnsortedMap_upsert (SortedMap_sets (new_SortedMap [] []) [(Val ''a'', Val (1 :: int))]) (Val ''b'')
       (\<lambda>cur. case cur of Val x \<Rightarrow> Val (x + 1) | _ \<Rightarrow> Val 7)
     = call_set (SortedMap_sets (new_SortedMap [] []) [(Val ''a'', Val (1 :: int))]) (Val ''b'') (Val 7) \<and>
   keys (UnsortedMap_upsert (SortedMap_sets (new_SortedMap [] []) [(Val ''a'', Val (1 :: int))]) (Val ''b'')
       (\<lambda>cur. case cur of Val x \<Rightarrow> Val (x + 1) | _ \<Rightarrow> Val 7))
     = [Some (Val ''b''), Some (Val ''a'')]"
proof -
  let ?m = "SortedMap_sets (new_SortedMap [] []) [(Val ''a'', Val (1 :: int))]"
  let ?f = "\<lambda>cur. case cur of Val x \<Rightarrow> Val (x + 1 :: int) | _ \<Rightarrow> Val 7"
  have h: "\<not> UnsortedMap_has ?m (Val ''b'')" by code_simp
  have k: "keys (call_set ?m (Val ''b'') (Val 7)) = [Some (Val ''b''), Some (Val ''a'')]" by code_simp
  from upsert_is_set_of_get [of ?m "Val ''b''" ?f] h
  have "UnsortedMap_upsert ?m (Val ''b'') ?f = call_set ?m (Val ''b'') (?f Undefined)" by blast
  then have "UnsortedMap_upsert ?m (Val ''b'') ?f = call_set ?m (Val ''b'') (Val 7)" by simp
  with h k show ?thesis by simp
qed

subsection \<open>C8: set twice is set once\<close>

text \<open>
  Claim C8 as stated fails for the key \<^verbatim>\<open>NaN\<close>: \<^verbatim>\<open>set(NaN, 1)\<close> twice on an
  empty container leaves two entries, once leaves one, with either \<^verbatim>\<open>set\<close>.
\<close>

theorem NaN_key_twice_counterexample:
  "keys (UnsortedMap_set (new_UnsortedMap [] []) (NaN :: string js_val) (Val (1 :: int))) = [Some NaN] \<and>
   keys (UnsortedMap_set (UnsortedMap_set (new_UnsortedMap [] []) (NaN :: string js_val) (Val (1 :: int)))
           NaN (Val 1)) = [Some NaN, Some NaN] \<and>
   keys (SortedMap_set (new_SortedMap [] []) (NaN :: string js_val) (Val (1 :: int))) = [Some NaN] \<and>
   keys (SortedMap_set (SortedMap_set (new_SortedMap [] []) (NaN :: string js_val) (Val (1 :: int)))
           NaN (Val 1)) = [Some NaN, Some NaN]"
  by code_simp

text \<open>
  Claim C8, amended. For a key \<open>k\<close> other than \<^verbatim>\<open>NaN\<close> and a container as the data
  model has it (as many keys as values; for \<^verbatim>\<open>SortedMap.set\<close> also no key stored
  twice), a second call \<^verbatim>\<open>set(k, v)\<close> right after the first changes nothing, with
  either \<^verbatim>\<open>set\<close>. For every \<^verbatim>\<open>SortedMap\<close> reached from a new one by calls of
  \<^verbatim>\<open>set\<close> this holds with no condition but the one on \<open>k\<close>.
\<close>

theorem set_idempotent:
  "(k \<noteq> NaN \<and> length (keys m) = length (values m) \<longrightarrow>
      UnsortedMap_set (UnsortedMap_set m k v) k v = UnsortedMap_set m k v) \<and>
   (k \<noteq> NaN \<and> length (keys m) = length (values m) \<and> distinct (keys m) \<longrightarrow>
      SortedMap_set (SortedMap_set m k v) k v = SortedMap_set m k v) \<and>
   (k \<noteq> NaN \<longrightarrow>
      SortedMap_set (SortedMap_set (SortedMap_sets (new_SortedMap ks vs) calls) k v) k v
        = SortedMap_set (SortedMap_sets (new_SortedMap ks vs) calls) k v)"
proof -
  have inv: "sorted_inv (SortedMap_sets (new_SortedMap ks vs) calls)"
    by (rule sorted_inv_sets [OF sorted_inv_new])
  then have l: "length (keys (SortedMap_sets (new_SortedMap ks vs) calls)) =
      length (values (SortedMap_sets (new_SortedMap ks vs) calls))"
    and u: "distinct (filter (\<lambda>s. s \<noteq> Some NaN) (keys (SortedMap_sets (new_SortedMap ks vs) calls)))"
    by (simp_all add: sorted_inv_def)
  have third: "SortedMap_set (SortedMap_set (SortedMap_sets (new_SortedMap ks vs) calls) k v) k v
        = SortedMap_set (SortedMap_sets (new_SortedMap ks vs) calls) k v" if nn: "k \<noteq> NaN"
    by (rule SortedMap_set_twice [OF l nn removed_keys_fresh [OF u nn]])
  have second: "SortedMap_set (SortedMap_set m k v) k v = SortedMap_set m k v"
    if "k \<noteq> NaN" "length (keys m) = length (values m)" "distinct (keys m)"
    by (rule SortedMap_set_twice [OF that(2) that(1) removed_keys_fresh_distinct [OF that(3) that(1)]])
  from second third show ?thesis
    by (simp add: UnsortedMap_set_twice)
qed

theorem set_idempotent_witness:
  "Val ''x'' \<noteq> (NaN :: string js_val) \<and>
   length (keys (SortedMap_sets (new_SortedMap [] []) [(Val ''x'', Val (5 :: int)), (Val ''y'', Val 9)])) =
     length (values (SortedMap_sets (new_SortedMap [] []) [(Val ''x'', Val (5 :: int)), (Val ''y'', Val 9)])) \<and>
   distinct (keys (SortedMap_sets (new_SortedMap [] []) [(Val ''x'', Val (5 :: int)), (Val ''y'', Val 9)])) \<and>
   SortedMap_set (SortedMap_set (SortedMap_sets (new_SortedMap [] [])
       [(Val ''x'', Val (5 :: int)), (Val ''y'', Val 9)]) (Val ''x'') (Val 9)) (Val ''x'') (Val 9)
     = SortedMap_set (SortedMap_sets (new_SortedMap [] [])
       [(Val ''x'', Val (5 :: int)), (Val ''y'', Val 9)]) (Val ''x'') (Val 9) \<and>
   keys (SortedMap_set (SortedMap_sets (new_SortedMap [] [])
       [(Val ''x'', Val (5 :: int)), (Val ''y'', Val 9)]) (Val ''x'') (Val 9))
     = [Some (Val ''x''), Some (Val ''y'')] \<and>
   UnsortedMap_set (UnsortedMap_set (SortedMap_sets (new_SortedMap [] [])
       [(Val ''x'', Val (5 :: int)), (Val ''y'', Val 9)]) (Val ''x'') (Val 9)) (Val ''x'') (Val 9)
     = UnsortedMap_set (SortedMap_sets (new_SortedMap [] [])
       [(Val ''x'', Val (5 :: int)), (Val ''y'', Val 9)]) (Val ''x'') (Val 9)"
proof -
  let ?m = "SortedMap_sets (new_SortedMap [] []) [(Val ''x'', Val (5 :: int)), (Val ''y'', Val 9)]"
  have h0: "Val ''x'' \<noteq> (NaN :: string js_val)" by simp
  have h1: "length (keys ?m) = length (values ?m)" by code_simp
  have h2: "distinct (keys ?m)" by code_simp
  have h3: "keys (SortedMap_set ?m (Val ''x'') (Val 9)) = [Some (Val ''x''), Some (Val ''y'')]"
    by code_simp
  from set_idempotent [of "Val ''x''" ?m "Val 9"] h0 h1 h2 h3 show ?thesis by blast
qed

subsection \<open>C9: as many keys as values\<close>

text \<open>
  Claim C9. A new \<^verbatim>\<open>UnsortedMap\<close> built from arrays of one length, and every new
  \<^verbatim>\<open>SortedMap\<close>, has as many keys as values; and when \<open>m\<close> has, so has
  \<open>m\<close> after \<^verbatim>\<open>set\<close> (of either class) and after \<^verbatim>\<open>upsert\<close>, and so has
  the container \<^verbatim>\<open>map\<close> returns.
\<close>

theorem equal_length_preserved:
  "(length ks = length vs \<longrightarrow>
      length (keys (new_UnsortedMap ks vs)) = length (values (new_UnsortedMap ks vs))) \<and>
   length (keys (new_SortedMap ks vs)) = length (values (new_SortedMap ks vs)) \<and>
   (length (keys m) = length (values m) \<longrightarrow>
      length (keys (UnsortedMap_set m k v)) = length (values (UnsortedMap_set m k v)) \<and>
      length (keys (SortedMap_set m k v)) = length (values (SortedMap_set m k v)) \<and>
      length (keys (UnsortedMap_upsert m k f)) = length (values (UnsortedMap_upsert m k f)) \<and>
      length (keys (UnsortedMap_map m g)) = length (values (UnsortedMap_map m g)))"
  by (simp add: new_UnsortedMap_def UnsortedMap_constructor_def new_SortedMap_eq
      UnsortedMap_set_length SortedMap_set_length UnsortedMap_upsert_def call_set_length
      UnsortedMap_map_length)

theorem equal_length_preserved_witness:
  "length [Some (Val ''a''), Some (Val ''b'')] = length [Some (Val (1 :: int)), Some (Val 2)] \<and>
   length (keys (new_UnsortedMap [Some (Val ''a''), Some (Val ''b'')] [Some (Val (1 :: int)), Some (Val 2)])) =
     length (values (new_UnsortedMap [Some (Val ''a''), Some (Val ''b'')] [Some (Val (1 :: int)), Some (Val 2)])) \<and>
   length (keys (UnsortedMap_set
       (new_UnsortedMap [Some (Val ''a''), Some (Val ''b'')] [Some (Val (1 :: int)), Some (Val 2)])
       (Val ''c'') (Val 3))) =
     length (values (UnsortedMap_set
       (new_UnsortedMap [Some (Val ''a''), Some (Val ''b'')] [Some (Val (1 :: int)), Some (Val 2)])
       (Val ''c'') (Val 3))) \<and>
   length (keys (SortedMap_set
       (new_UnsortedMap [Some (Val ''a''), Some (Val ''b'')] [Some (Val (1 :: int)), Some (Val 2)])
       (Val ''c'') (Val 3))) = 3"
proof -
  let ?ks = "[Some (Val ''a''), Some (Val ''b'')]"
  let ?vs = "[Some (Val (1 :: int)), Some (Val 2)]"
  let ?m = "new_UnsortedMap ?ks ?vs"
  have l: "length ?ks = length ?vs" by simp
  have lm: "length (keys ?m) = length (values ?m)" by code_simp
  have s: "length (keys (SortedMap_set ?m (Val ''c'') (Val 3))) = 3" by code_simp
  from equal_length_preserved [of ?ks ?vs ?m "Val ''c''" "Val 3"] l lm s
  show ?thesis by simp
qed

subsection \<open>C10: map on a SortedMap returns an empty SortedMap\<close>

text \<open>
  Claim C10. On a \<^verbatim>\<open>SortedMap\<close>, whatever it holds and whatever the callback,
  \<^verbatim>\<open>map\<close> returns an empty \<^verbatim>\<open>SortedMap\<close>: the constructor it calls drops the
  arrays it is given.
\<close>

theorem SortedMap_map_empty:
  "cls m = SortedMap \<Longrightarrow> UnsortedMap_map m f = \<lparr>cls = SortedMap, keys = [], values = []\<rparr>"
  by (simp add: UnsortedMap_map_def construct_def Let_def new_SortedMap_eq)

theorem SortedMap_map_empty_witness:
  "cls (SortedMap_sets (new_SortedMap [] []) [(Val ''a'', Val (1 :: int)), (Val ''b'', Val 2)]) = SortedMap \<and>
   keys (SortedMap_sets (new_SortedMap [] []) [(Val ''a'', Val (1 :: int)), (Val ''b'', Val 2)])
     = [Some (Val ''b''), Some (Val ''a'')] \<and>
   UnsortedMap_map (SortedMap_sets (new_SortedMap [] []) [(Val ''a'', Val (1 :: int)), (Val ''b'', Val 2)])
       (\<lambda>k v. Val 0)
     = \<lparr>cls = SortedMap, keys = [], values = []\<rparr>"
proof -
  let ?m = "SortedMap_sets (new_SortedMap [] []) [(Val ''a'', Val (1 :: int)), (Val ''b'', Val 2)]"
  have c: "cls ?m = SortedMap" by code_simp
  have k: "keys ?m = [Some (Val ''b''), Some (Val ''a'')]" by code_simp
  from c k SortedMap_map_empty [OF c, of "\<lambda>k v. Val 0"] show ?thesis by simp
qed

end
